theory Spec2Isabelle
  imports Main "HOL-Library.AList"
begin

section \<open>JavaScript data as the selectors use it\<close>

text \<open>
  The selectors of \<^verbatim>\<open>src/selectors/index.js\<close> are pure functions over arrays and plain
  objects. An exception thrown by the engine is the value \<open>Inl TypeError\<close>; a selector that
  can throw returns \<open>js_error + result\<close>.
\<close>

datatype js_error = TypeError

subsection \<open>Property keys\<close>

text \<open>
  A property key is a string. Two families of keys behave specially in the engine and both
  are modelled:
  \<^item> an \<^emph>\<open>array index\<close> is the canonical decimal string of a number below \<open>2^32 - 1\<close>;
    \<^verbatim>\<open>Object.keys\<close> and \<^verbatim>\<open>Object.values\<close> list these keys first, in ascending numeric
    order, and the remaining keys after them in order of creation;
  \<^item> a plain object \<^verbatim>\<open>{}\<close> inherits the members of \<^verbatim>\<open>Object.prototype\<close>: reading
    \<^verbatim>\<open>obj[k]\<close> for such a name yields the inherited member (a truthy value) when the
    object has no own property \<open>k\<close>.
\<close>

definition digit :: "char \<Rightarrow> bool" where
  "digit c = (48 \<le> (of_char c :: nat) \<and> (of_char c :: nat) \<le> 57)"

definition decimal :: "string \<Rightarrow> nat" where
  "decimal s = foldl (\<lambda>n c. 10 * n + (of_char c - 48)) 0 s"

definition array_index :: "string \<Rightarrow> nat option" where
  "array_index s =
     (if s \<noteq> [] \<and> list_all digit s \<and> (hd s \<noteq> CHR ''0'' \<or> s = ''0'') \<and> decimal s < 4294967295
      then Some (decimal s) else None)"

definition index_value :: "string \<Rightarrow> nat" where
  "index_value k = (case array_index k of Some n \<Rightarrow> n | None \<Rightarrow> 0)"

definition inherited :: "string \<Rightarrow> bool" where
  "inherited k = (k \<in> set [''constructor'', ''__proto__'', ''hasOwnProperty'', ''isPrototypeOf'',
     ''propertyIsEnumerable'', ''toLocaleString'', ''toString'', ''valueOf'',
     ''__defineGetter__'', ''__defineSetter__'', ''__lookupGetter__'', ''__lookupSetter__''])"

subsection \<open>Plain objects used as dictionaries\<close>

text \<open>
  A dictionary holds its own properties in order of creation. \<open>put\<close> is the assignment
  \<^verbatim>\<open>d[k] = v\<close> of an object value: it replaces the value of an existing own property in
  place, appends a new one, and for the key \<^verbatim>\<open>__proto__\<close> replaces the prototype instead of
  creating an own property. \<open>truthy_at\<close> is the test \<^verbatim>\<open>if (d[k])\<close> on a dictionary whose
  own values are all truthy. \<open>hasOwnProperty\<close> is the method call
  \<^verbatim>\<open>d.hasOwnProperty(k)\<close>: once \<open>d\<close> has an own property of that name (an object, not a
  function) the call throws.
\<close>

type_synonym 'v dict = "(string \<times> 'v) list"

definition has_own :: "'v dict \<Rightarrow> string \<Rightarrow> bool" where
  "has_own d k = (map_of d k \<noteq> None)"

definition put :: "string \<Rightarrow> 'v \<Rightarrow> 'v dict \<Rightarrow> 'v dict" where
  "put k v d = (if k = ''__proto__'' then d else AList.update k v d)"

definition truthy_at :: "'v dict \<Rightarrow> string \<Rightarrow> bool" where
  "truthy_at d k = (has_own d k \<or> inherited k)"

definition hasOwnProperty :: "'v dict \<Rightarrow> string \<Rightarrow> js_error + bool" where
  "hasOwnProperty d k = (if has_own d ''hasOwnProperty'' then Inl TypeError else Inr (has_own d k))"

definition own_entries :: "'v dict \<Rightarrow> 'v dict" where
  "own_entries d =
     sort_key (\<lambda>p. index_value (fst p)) (filter (\<lambda>p. array_index (fst p) \<noteq> None) d)
     @ filter (\<lambda>p. array_index (fst p) = None) d"

definition object_keys :: "'v dict \<Rightarrow> string list" where
  "object_keys d = map fst (own_entries d)"

definition object_values :: "'v dict \<Rightarrow> 'v list" where
  "object_values d = map snd (own_entries d)"

text \<open>\<^verbatim>\<open>{...a, ...b}\<close>: the properties of \<open>a\<close>, overwritten or extended by those of \<open>b\<close>.\<close>

definition spread :: "('k \<times> 'v) list \<Rightarrow> ('k \<times> 'v) list \<Rightarrow> ('k \<times> 'v) list" where
  "spread a b = fold (\<lambda>p. AList.update (fst p) (snd p)) b a"

subsection \<open>Arrays\<close>

text \<open>
  The accumulator of \<^verbatim>\<open>selectEvents\<close> is an array written at the numeric keys
  \<^verbatim>\<open>event.id\<close>, so it is sparse: a list of (key, value) pairs. \<^verbatim>\<open>forEach\<close> visits the
  elements, that is the values at array indices, in ascending order of index; a value
  stored at a number that is not an array index is an ordinary property and is not visited.
\<close>

type_synonym 'a js_array = "(nat \<times> 'a) list"

definition forEach_elems :: "'a js_array \<Rightarrow> 'a list" where
  "forEach_elems a = map snd (sort_key fst (filter (\<lambda>p. fst p < 4294967295) a))"

text \<open>A \<^verbatim>\<open>forEach\<close> whose callback may throw.\<close>

fun fold_err :: "('s \<Rightarrow> 'a \<Rightarrow> js_error + 's) \<Rightarrow> 's \<Rightarrow> 'a list \<Rightarrow> js_error + 's" where
  "fold_err f s [] = Inr s"
| "fold_err f s (x # xs) = (case f s x of Inl e \<Rightarrow> Inl e | Inr s' \<Rightarrow> fold_err f s' xs)"

text \<open>
  \<^verbatim>\<open>xs.sort(cmp)\<close>: the sort is stable; an element moves in front of another exactly when
  the comparator does not put it after (\<open>cmp x y \<le> 0\<close>).
\<close>

fun insert_by :: "('a \<Rightarrow> 'a \<Rightarrow> int) \<Rightarrow> 'a \<Rightarrow> 'a list \<Rightarrow> 'a list" where
  "insert_by cmp x [] = [x]"
| "insert_by cmp x (y # ys) = (if cmp x y \<le> 0 then x # y # ys else y # insert_by cmp x ys)"

definition js_sort :: "('a \<Rightarrow> 'a \<Rightarrow> int) \<Rightarrow> 'a list \<Rightarrow> 'a list" where
  "js_sort cmp xs = foldr (insert_by cmp) xs []"

text \<open>
  The order a sort produces is defined only for a consistent comparator: the sign of
  \<open>cmp a b\<close> is the opposite of the sign of \<open>cmp b a\<close>, and the order it induces is
  transitive.
\<close>

definition consistent_comparator :: "('a \<Rightarrow> 'a \<Rightarrow> int) \<Rightarrow> bool" where
  "consistent_comparator cmp =
     ((\<forall>a b. (cmp a b < 0) = (0 < cmp b a))
      \<and> (\<forall>a b c. cmp a b \<le> 0 \<and> cmp b c \<le> 0 \<longrightarrow> cmp a c \<le> 0))"

text \<open>\<^verbatim>\<open>xs.indexOf(x)\<close>: the first position of \<open>x\<close>, or \<open>-1\<close>.\<close>

fun first_index :: "'a list \<Rightarrow> 'a \<Rightarrow> int \<Rightarrow> int" where
  "first_index [] x i = -1"
| "first_index (y # ys) x i = (if y = x then i else first_index ys x (i + 1))"

text \<open>The relational operators on strings compare code units lexicographically.\<close>

fun str_less :: "string \<Rightarrow> string \<Rightarrow> bool" where
  "str_less [] [] = False"
| "str_less [] (y # ys) = True"
| "str_less (x # xs) [] = False"
| "str_less (x # xs) (y # ys) = ((of_char x :: nat) < of_char y \<or> (x = y \<and> str_less xs ys))"

definition str_ge :: "string \<Rightarrow> string \<Rightarrow> bool" where
  "str_ge a b = (\<not> str_less a b)"

definition str_le :: "string \<Rightarrow> string \<Rightarrow> bool" where
  "str_le a b = (\<not> str_less b a)"

section \<open>The state tree and its accessors\<close>

text \<open>
  An event. \<open>tags\<close>, \<open>narratives\<close>, \<open>location\<close>, \<open>latitude\<close> and \<open>longitude\<close> are optional:
  \<open>None\<close> is a missing property (\<^verbatim>\<open>undefined\<close>). \<open>other\<close> holds the descriptive fields the
  selectors pass through.
\<close>

record event =
  id' :: nat
  timestamp :: string
  date :: string
  time :: string
  category :: string
  tags :: "string list option"
  narratives :: "string list option"
  location :: "string option"
  latitude :: "string option"
  longitude :: "string option"
  other :: "(string \<times> string) list"

text \<open>The capability flags \<^verbatim>\<open>process.env.features\<close>.\<close>

record features =
  USE_SITES :: bool
  USE_SOURCES :: bool
  USE_SHAPES :: bool
  ASSOCIATIVE_EVENTS_BY_TAG :: bool

text \<open>
  A site; \<open>enabled\<close> is the number \<^verbatim>\<open>+s.enabled\<close>, \<open>None\<close> when the conversion gives
  \<^verbatim>\<open>NaN\<close>.
\<close>

record site =
  site_name :: string
  enabled :: "int option"

record ('source, 'shape) domain =
  sites :: "site list"
  sources :: "string \<rightharpoonup> 'source"
  shapes :: "'shape list"

record ('source, 'shape) state =
  domain :: "('source, 'shape) domain"

definition getSites :: "features \<Rightarrow> ('source, 'shape) state \<Rightarrow> site list" where
  "getSites env st =
     (if USE_SITES env
      then filter (\<lambda>s. case enabled s of None \<Rightarrow> False | Some n \<Rightarrow> n \<noteq> 0) (sites (domain st))
      else [])"

definition getSources :: "features \<Rightarrow> ('source, 'shape) state \<Rightarrow> (string \<rightharpoonup> 'source)" where
  "getSources env st = (if USE_SOURCES env then sources (domain st) else Map.empty)"

definition getShapes :: "features \<Rightarrow> ('source, 'shape) state \<Rightarrow> 'shape list" where
  "getShapes env st = (if USE_SHAPES env then shapes (domain st) else [])"

section \<open>selectEvents\<close>

text \<open>
  The helper \<^verbatim>\<open>isTimeRangedIn\<close> of \<^verbatim>\<open>./helpers\<close> is a parameter. \<open>retained\<close> is the
  condition of the \<^verbatim>\<open>if\<close> in the reducer, with the three intermediate constants of the
  source.
\<close>

definition retained ::
  "(event \<Rightarrow> 'range \<Rightarrow> bool) \<Rightarrow> string list \<Rightarrow> string list \<Rightarrow> 'range \<Rightarrow> event \<Rightarrow> bool" where
  "retained isTimeRangedIn activeTags activeCategories timeRange event =
     (let isMatchingTag =
            ((case tags event of
                None \<Rightarrow> False
              | Some ts \<Rightarrow> list_ex (\<lambda>s. s) (map (\<lambda>tag. tag \<in> set activeTags) ts))
             \<or> length activeTags = 0);
          isActiveTag = (isMatchingTag \<or> length activeTags = 0);
          isActiveCategory = (category event \<in> set activeCategories \<or> length activeCategories = 0);
          isActiveTime = isTimeRangedIn event timeRange
      in isActiveTime \<and> isActiveTag \<and> isActiveCategory)"

definition selectEvents ::
  "(event \<Rightarrow> 'range \<Rightarrow> bool) \<Rightarrow> event list \<Rightarrow> string list \<Rightarrow> string list \<Rightarrow> 'range
     \<Rightarrow> event js_array" where
  "selectEvents isTimeRangedIn events activeTags activeCategories timeRange =
     foldl (\<lambda>acc event.
              if retained isTimeRangedIn activeTags activeCategories timeRange event
              then AList.update (id' event) event acc
              else acc)
       [] events"

section \<open>selectNarratives\<close>

text \<open>
  The helpers \<^verbatim>\<open>insetSourceFrom\<close> and \<^verbatim>\<open>compareTimestamp\<close> of
  \<^verbatim>\<open>../common/utilities\<close> are parameters; \<open>'step\<close> is the type of an event with its
  sources inlined. The dictionary \<^verbatim>\<open>narratives\<close> first holds the skeletons
  \<^verbatim>\<open>{id, steps}\<close>; the second loop replaces each by an object that may carry the fields of
  its metadata entry.
\<close>

record 'step narrative =
  narrative_id :: string
  steps :: "'step list"

datatype 'step val = Str string | Steps "'step list"

type_synonym 'step obj = "(string \<times> 'step val) list"

text \<open>A metadata entry: its \<^verbatim>\<open>id\<close> and its other properties.\<close>

record 'step meta =
  meta_id :: string
  meta_fields :: "'step obj"

definition obj_of_meta :: "'step meta \<Rightarrow> 'step obj" where
  "obj_of_meta n = AList.update ''id'' (Str (meta_id n)) (meta_fields n)"

definition obj_of_narrative :: "'step narrative \<Rightarrow> 'step obj" where
  "obj_of_narrative n = [(''id'', Str (narrative_id n)), (''steps'', Steps (steps n))]"

definition narrativeSkeleton :: "string \<Rightarrow> 'step narrative" where
  "narrativeSkeleton i = \<lparr>narrative_id = i, steps = []\<rparr>"

text \<open>
  The body of the inner \<^verbatim>\<open>forEach\<close>. When \<^verbatim>\<open>narratives[narrative]\<close> is an inherited
  member, no skeleton is created and \<^verbatim>\<open>.steps.push\<close> throws.
\<close>

definition visit_narrative ::
  "bool \<Rightarrow> 'step \<Rightarrow> 'step narrative dict \<Rightarrow> string \<Rightarrow> js_error + 'step narrative dict" where
  "visit_narrative isInNarrative step narrs narrative =
     (let narrs1 = (if truthy_at narrs narrative then narrs
                    else put narrative (narrativeSkeleton narrative) narrs)
      in if isInNarrative
         then (case map_of narrs1 narrative of
                 Some n \<Rightarrow> Inr (AList.update narrative (n\<lparr>steps := steps n @ [step]\<rparr>) narrs1)
               | None \<Rightarrow> Inl TypeError)
         else Inr narrs1)"

text \<open>The body of the outer \<^verbatim>\<open>forEach\<close>; \<^verbatim>\<open>evt.narratives.length\<close> throws when the
  property is missing.\<close>

definition visit_event ::
  "('sources \<Rightarrow> event \<Rightarrow> 'step) \<Rightarrow> 'sources \<Rightarrow> 'step narrative dict \<Rightarrow> event
     \<Rightarrow> js_error + 'step narrative dict" where
  "visit_event insetSourceFrom srcs narrs evt =
     (case narratives evt of
        None \<Rightarrow> Inl TypeError
      | Some ns \<Rightarrow>
          (let isInNarrative = (length ns > 0)
           in fold_err (visit_narrative isInNarrative (insetSourceFrom srcs evt)) narrs ns))"

text \<open>One round of the second loop, for the key \<open>key\<close>.\<close>

definition finish ::
  "('step \<Rightarrow> 'step \<Rightarrow> int) \<Rightarrow> 'step meta list \<Rightarrow> string \<Rightarrow> 'step narrative \<Rightarrow> 'step obj" where
  "finish compareTimestamp narrativesMeta key n =
     (let sorted = n\<lparr>steps := js_sort compareTimestamp (steps n)\<rparr>
      in case find (\<lambda>m. meta_id m = key) narrativesMeta of
           Some m \<Rightarrow> spread (obj_of_meta m) (obj_of_narrative sorted)
         | None \<Rightarrow> obj_of_narrative sorted)"

text \<open>
  An element of the result: a narrative object, or the member of \<^verbatim>\<open>Object.prototype\<close>
  that \<^verbatim>\<open>narratives[n.id]\<close> reads when the metadata id is an inherited name.
\<close>

datatype 'step entry = Narrative "'step obj" | Inherited string

definition lookup_entry :: "'step obj dict \<Rightarrow> string \<Rightarrow> 'step entry option" where
  "lookup_entry d k =
     (case map_of d k of
        Some ob \<Rightarrow> Some (Narrative ob)
      | None \<Rightarrow> if inherited k then Some (Inherited k) else None)"

text \<open>The narrative objects of a result, in order.\<close>

definition narrative_objs :: "'step entry list \<Rightarrow> 'step obj list" where
  "narrative_objs out = concat (map (\<lambda>x. case x of Narrative ob \<Rightarrow> [ob] | Inherited k \<Rightarrow> []) out)"

definition assemble ::
  "('sources \<Rightarrow> event \<Rightarrow> 'step) \<Rightarrow> event list \<Rightarrow> 'sources \<Rightarrow> js_error + 'step narrative dict" where
  "assemble insetSourceFrom events srcs = fold_err (visit_event insetSourceFrom srcs) [] events"

definition selectNarratives ::
  "('sources \<Rightarrow> event \<Rightarrow> 'step) \<Rightarrow> ('step \<Rightarrow> 'step \<Rightarrow> int) \<Rightarrow> event list \<Rightarrow> 'step meta list
     \<Rightarrow> 'sources \<Rightarrow> js_error + 'step entry list" where
  "selectNarratives insetSourceFrom compareTimestamp events narrativesMeta srcs =
     (case assemble insetSourceFrom events srcs of
        Inl e \<Rightarrow> Inl e
      | Inr narrs \<Rightarrow>
          (let narrs2 = map (\<lambda>p. (fst p, finish compareTimestamp narrativesMeta (fst p) (snd p))) narrs
           in Inr (List.map_filter (\<lambda>n. lookup_entry narrs2 (meta_id n)) narrativesMeta)))"

section \<open>selectLocations\<close>

record location_group =
  loc_label :: "string option"
  loc_events :: "event list"
  loc_latitude :: "string option"
  loc_longitude :: "string option"

text \<open>The property key of \<^verbatim>\<open>event.location\<close>; a missing location has the key
  \<^verbatim>\<open>undefined\<close>.\<close>

definition location_key :: "event \<Rightarrow> string" where
  "location_key event = (case location event of None \<Rightarrow> ''undefined'' | Some l \<Rightarrow> l)"

definition locate :: "location_group dict \<Rightarrow> event \<Rightarrow> js_error + location_group dict" where
  "locate activeLocations event =
     (let key = location_key event
      in if truthy_at activeLocations key
         then (case map_of activeLocations key of
                 Some g \<Rightarrow> Inr (AList.update key (g\<lparr>loc_events := loc_events g @ [event]\<rparr>) activeLocations)
               | None \<Rightarrow> Inl TypeError)
         else Inr (put key
                     \<lparr>loc_label = location event, loc_events = [event],
                      loc_latitude = latitude event, loc_longitude = longitude event\<rparr>
                     activeLocations))"

definition selectLocations :: "event js_array \<Rightarrow> js_error + location_group list" where
  "selectLocations events =
     (case fold_err locate [] (forEach_elems events) of
        Inl e \<Rightarrow> Inl e
      | Inr activeLocations \<Rightarrow> Inr (object_values activeLocations))"

section \<open>selectDatetimes\<close>

text \<open>
  \<^verbatim>\<open>dateMin\<close> and \<^verbatim>\<open>dateMax\<close> of \<^verbatim>\<open>../common/utilities\<close>, the constant
  \<^verbatim>\<open>sizes.eventDotR\<close> of \<^verbatim>\<open>../common/global\<close> and the number \<^verbatim>\<open>new Date(k)\<close> of a key
  (\<open>dateOf\<close>) are parameters. The \<^verbatim>\<open>project\<close> of an event is missing when the capability
  is off, \<^verbatim>\<open>null\<close> when the event has no tag, and its first tag otherwise.
\<close>

datatype project = Undefined | Null | Tag string

record annotated =
  base :: event
  project :: project
  projectOffset :: "int option"

record interval =
  start :: string
  end' :: string

record datetime_group =
  dt_timestamp :: string
  dt_date :: string
  dt_time :: string
  dt_events :: "annotated list"

text \<open>Lines 158 to 169: the project of the event and the interval of that project.\<close>

definition track_project ::
  "bool \<Rightarrow> (string \<Rightarrow> string \<Rightarrow> string) \<Rightarrow> (string \<Rightarrow> string \<Rightarrow> string) \<Rightarrow> interval dict \<Rightarrow> event
     \<Rightarrow> js_error + (annotated \<times> interval dict)" where
  "track_project associative dateMin dateMax projects event =
     (if associative
      then (case tags event of
              None \<Rightarrow> Inl TypeError
            | Some ts \<Rightarrow>
                (let pj = (if length ts \<ge> 1 then Tag (ts ! 0) else Null);
                     ev = \<lparr>base = event, project = pj, projectOffset = None\<rparr>
                 in case pj of
                      Tag p \<Rightarrow>
                        (case hasOwnProperty projects p of
                           Inl e \<Rightarrow> Inl e
                         | Inr True \<Rightarrow>
                             Inr (ev, AList.map_entry p
                                   (\<lambda>iv. \<lparr>start = dateMin (start iv) (timestamp event),
                                          end' = dateMax (end' iv) (timestamp event)\<rparr>) projects)
                         | Inr False \<Rightarrow>
                             Inr (ev, put p \<lparr>start = timestamp event, end' = timestamp event\<rparr> projects))
                    | _ \<Rightarrow> Inr (ev, projects)))
      else Inr (\<lparr>base = event, project = Undefined, projectOffset = None\<rparr>, projects))"

text \<open>Lines 170 to 180: the event joins the group of its timestamp.\<close>

definition bucket :: "datetime_group dict \<Rightarrow> annotated \<Rightarrow> js_error + datetime_group dict" where
  "bucket datetimes ev =
     (let ts = timestamp (base ev)
      in case hasOwnProperty datetimes ts of
           Inl e \<Rightarrow> Inl e
         | Inr True \<Rightarrow> Inr (AList.map_entry ts (\<lambda>g. g\<lparr>dt_events := dt_events g @ [ev]\<rparr>) datetimes)
         | Inr False \<Rightarrow>
             Inr (put ts \<lparr>dt_timestamp = ts, dt_date = date (base ev), dt_time = time (base ev),
                         dt_events = [ev]\<rparr> datetimes))"

definition group_event ::
  "bool \<Rightarrow> (string \<Rightarrow> string \<Rightarrow> string) \<Rightarrow> (string \<Rightarrow> string \<Rightarrow> string)
     \<Rightarrow> interval dict \<times> datetime_group dict \<Rightarrow> event
     \<Rightarrow> js_error + (interval dict \<times> datetime_group dict)" where
  "group_event associative dateMin dateMax st event =
     (case track_project associative dateMin dateMax (fst st) event of
        Inl e \<Rightarrow> Inl e
      | Inr (ev, projects) \<Rightarrow>
          (case bucket (snd st) ev of
             Inl e \<Rightarrow> Inl e
           | Inr datetimes \<Rightarrow> Inr (projects, datetimes)))"

definition checkActive :: "interval dict \<Rightarrow> string \<Rightarrow> string \<Rightarrow> bool" where
  "checkActive projects pj dt =
     (case map_of projects pj of
        Some iv \<Rightarrow> str_ge dt (start iv) \<and> str_le dt (end' iv)
      | None \<Rightarrow> False)"

definition activeProjects :: "interval dict \<Rightarrow> string \<Rightarrow> string list" where
  "activeProjects projects dt = filter (\<lambda>k. checkActive projects k dt) (object_keys projects)"

definition indexOf :: "string list \<Rightarrow> project \<Rightarrow> int" where
  "indexOf xs pj = (case pj of Tag t \<Rightarrow> first_index xs t 0 | _ \<Rightarrow> -1)"

text \<open>Lines 190 to 199: one round of the loop over the sorted timestamps.\<close>

definition with_offsets :: "int \<Rightarrow> interval dict \<Rightarrow> string \<Rightarrow> datetime_group \<Rightarrow> datetime_group" where
  "with_offsets eventDotR projects dt g =
     g\<lparr>dt_events :=
         map (\<lambda>ev. ev\<lparr>projectOffset :=
                       Some (indexOf (activeProjects projects dt) (project ev) * (2 * eventDotR + 5))\<rparr>)
           (dt_events g)\<rparr>"

definition assign_lanes :: "int \<Rightarrow> interval dict \<Rightarrow> datetime_group dict \<Rightarrow> string \<Rightarrow> datetime_group dict" where
  "assign_lanes eventDotR projects datetimes dt =
     AList.map_entry dt (with_offsets eventDotR projects dt) datetimes"

definition group_all ::
  "bool \<Rightarrow> (string \<Rightarrow> string \<Rightarrow> string) \<Rightarrow> (string \<Rightarrow> string \<Rightarrow> string) \<Rightarrow> event js_array
     \<Rightarrow> js_error + (interval dict \<times> datetime_group dict)" where
  "group_all associative dateMin dateMax events =
     fold_err (group_event associative dateMin dateMax) ([], []) (forEach_elems events)"

definition selectDatetimes ::
  "bool \<Rightarrow> int \<Rightarrow> (string \<Rightarrow> string \<Rightarrow> string) \<Rightarrow> (string \<Rightarrow> string \<Rightarrow> string) \<Rightarrow> (string \<Rightarrow> int)
     \<Rightarrow> event js_array \<Rightarrow> js_error + datetime_group list" where
  "selectDatetimes associative eventDotR dateMin dateMax dateOf events =
     (case group_all associative dateMin dateMax events of
        Inl e \<Rightarrow> Inl e
      | Inr (projects, datetimes) \<Rightarrow>
          (let sortedDts = sort_key dateOf (object_keys datetimes)
           in Inr (object_values (foldl (assign_lanes eventDotR projects) datetimes sortedDts))))"

section \<open>Projects in order of discovery\<close>

text \<open>
  The specification names the project of an event, its first tag, and the order in which
  the projects are discovered: the order in which the events visited carry them for the
  first time. These two definitions follow the specification, not the code; the theorems on
  the lanes compare them with the keys and the intervals of the object \<^verbatim>\<open>projects\<close> that
  \<open>selectDatetimes\<close> builds.
\<close>

definition first_tag :: "event \<Rightarrow> string option" where
  "first_tag e = (case tags e of Some (t # ts) \<Rightarrow> Some t | _ \<Rightarrow> None)"

definition discovery_order :: "event list \<Rightarrow> string list" where
  "discovery_order es = rev (remdups (rev (List.map_filter first_tag es)))"

section \<open>selectCategoriesWithTimeline\<close>

text \<open>
  \<^verbatim>\<open>shuffle\<close> of \<^verbatim>\<open>./helpers\<close> is a parameter: the order in which the events are
  scanned. \<open>hasLocated\<close> is the list of the own keys of the object of that name.
\<close>

record category_entry =
  category' :: string
  description :: string

definition isLocated :: "event \<Rightarrow> bool" where
  "isLocated event =
     ((case longitude event of None \<Rightarrow> False | Some s \<Rightarrow> s \<noteq> [])
      \<and> (case latitude event of None \<Rightarrow> False | Some s \<Rightarrow> s \<noteq> []))"

fun scan :: "nat \<Rightarrow> string list \<Rightarrow> event list \<Rightarrow> string list" where
  "scan n hasLocated [] = hasLocated"
| "scan n hasLocated (event # rest) =
     (if length hasLocated = n then hasLocated
      else if category event \<in> set hasLocated \<or> inherited (category event) then scan n hasLocated rest
      else if isLocated event then scan n (hasLocated @ [category event]) rest
      else scan n hasLocated rest)"

definition selectCategoriesWithTimeline ::
  "(event list \<Rightarrow> event list) \<Rightarrow> category_entry list \<Rightarrow> event list \<Rightarrow> category_entry list" where
  "selectCategoriesWithTimeline shuffle categories events =
     (if length categories = 0 then categories
      else (let hasLocated = scan (length categories) [] (shuffle events)
            in filter (\<lambda>cat. category' cat \<in> set hasLocated \<or> inherited (category' cat)) categories))"

section \<open>Concrete inputs\<close>

text \<open>
  An event with the given id, timestamp, category and tags, and a time-range helper that
  admits the timestamps of a closed interval; they instantiate the theorems below.
\<close>

definition sample_event :: "nat \<Rightarrow> string \<Rightarrow> string \<Rightarrow> string list \<Rightarrow> event" where
  "sample_event i ts c tgs =
     \<lparr>id' = i, timestamp = ts, date = [], time = [], category = c, tags = Some tgs,
      narratives = Some [], location = None, latitude = None, longitude = None, other = []\<rparr>"

definition between :: "event \<Rightarrow> string \<times> string \<Rightarrow> bool" where
  "between e r = (str_ge (timestamp e) (fst r) \<and> str_le (timestamp e) (snd r))"

text \<open>An event with a place and coordinates.\<close>

definition located_event :: "nat \<Rightarrow> string \<Rightarrow> string \<Rightarrow> event" where
  "located_event i c l =
     (sample_event i ''2020-01-01'' c [])
       \<lparr>location := Some l, latitude := Some ''47.7'', longitude := Some ''32.2''\<rparr>"

text \<open>
  Stand-ins for the date helpers on timestamps written \<^verbatim>\<open>YYYY-MM-DD\<close>: the smaller and the
  larger of two timestamps, and the number read from the digits of a timestamp, which
  orders such timestamps as their dates do.
\<close>

definition str_min :: "string \<Rightarrow> string \<Rightarrow> string" where
  "str_min a b = (if str_less b a then b else a)"

definition str_max :: "string \<Rightarrow> string \<Rightarrow> string" where
  "str_max a b = (if str_less a b then b else a)"

definition iso_number :: "string \<Rightarrow> int" where
  "iso_number s = int (decimal (filter digit s))"

text \<open>
  An event that belongs to the given narratives, a comparator that orders events by the
  number of their timestamp, and the inlining of sources when there are none.
\<close>

definition narrated_event :: "nat \<Rightarrow> string \<Rightarrow> string list \<Rightarrow> event" where
  "narrated_event i ts ns = (sample_event i ts ''c1'' [])\<lparr>narratives := Some ns\<rparr>"

definition by_timestamp :: "event \<Rightarrow> event \<Rightarrow> int" where
  "by_timestamp a b = iso_number (timestamp a) - iso_number (timestamp b)"

definition no_sources :: "unit \<Rightarrow> event \<Rightarrow> event" where
  "no_sources srcs e = e"

section \<open>Helper lemmas\<close>

lemma map_of_update_fold:
  "map_of (foldl (\<lambda>acc e. if P e then AList.update (f e) e acc else acc) acc es) k =
     (case filter (\<lambda>e. f e = k \<and> P e) es of [] \<Rightarrow> map_of acc k | m # ms \<Rightarrow> Some (last (m # ms)))"
proof (induction es arbitrary: acc)
  case Nil
  then show ?case by simp
next
  case (Cons e es)
  then show ?case
    by (cases "filter (\<lambda>e. f e = k \<and> P e) es") (auto simp: update_conv')
qed

lemma distinct_update_fold:
  "distinct (map fst acc) \<Longrightarrow>
   distinct (map fst (foldl (\<lambda>acc e. if P e then AList.update (f e) e acc else acc) acc es))"
  by (induction es arbitrary: acc) (simp_all add: distinct_update)

lemma filter_key_single:
  "distinct (map fst xs) \<Longrightarrow> map_of xs k = Some v \<Longrightarrow> filter (\<lambda>p. fst p = k) xs = [(k, v)]"
proof (induction xs)
  case Nil
  then show ?case by simp
next
  case (Cons p xs)
  show ?case
  proof (cases "fst p = k")
    case True
    with Cons.prems have "p = (k, v)" by (cases p) simp
    moreover from True Cons.prems have "k \<notin> fst ` set xs" by simp
    then have "filter (\<lambda>q. fst q = k) xs = []"
      unfolding filter_empty_conv by force
    ultimately show ?thesis by simp
  next
    case False
    with Cons show ?thesis by simp
  qed
qed

lemma selectEvents_distinct:
  "distinct (map fst (selectEvents R events aT aC tr))"
  unfolding selectEvents_def by (rule distinct_update_fold) simp

lemma selectEvents_lookup:
  "map_of (selectEvents R events aT aC tr) k =
     (case filter (\<lambda>e. id' e = k \<and> retained R aT aC tr e) events of
        [] \<Rightarrow> None | m # ms \<Rightarrow> Some (last (m # ms)))"
  unfolding selectEvents_def by (simp add: map_of_update_fold split: list.splits)

lemma retained_iff:
  "retained isTimeRangedIn activeTags activeCategories timeRange e \<longleftrightarrow>
     isTimeRangedIn e timeRange
     \<and> (activeTags = [] \<or> (\<exists>ts. tags e = Some ts \<and> set ts \<inter> set activeTags \<noteq> {}))
     \<and> (activeCategories = [] \<or> category e \<in> set activeCategories)"
  by (auto simp: retained_def list_ex_iff split: option.splits)

lemma selectEvents_member:
  "E \<in> snd ` set (selectEvents R events aT aC tr) \<longleftrightarrow>
     E \<in> set events \<and> retained R aT aC tr E
     \<and> last (filter (\<lambda>e. id' e = id' E \<and> retained R aT aC tr e) events) = E"
proof
  assume "E \<in> snd ` set (selectEvents R events aT aC tr)"
  then obtain k where "(k, E) \<in> set (selectEvents R events aT aC tr)" by force
  with selectEvents_distinct [of R events aT aC tr]
  have look: "map_of (selectEvents R events aT aC tr) k = Some E"
    by simp
  let ?ms = "filter (\<lambda>e. id' e = k \<and> retained R aT aC tr e) events"
  from look have ne: "?ms \<noteq> []" and last: "last ?ms = E"
    by (auto simp: selectEvents_lookup split: list.splits)
  from ne have "last ?ms \<in> set ?ms" by (rule last_in_set)
  with last have "E \<in> set events" "id' E = k" "retained R aT aC tr E" by auto
  with last show "E \<in> set events \<and> retained R aT aC tr E
     \<and> last (filter (\<lambda>e. id' e = id' E \<and> retained R aT aC tr e) events) = E" by simp
next
  let ?ms = "filter (\<lambda>e. id' e = id' E \<and> retained R aT aC tr e) events"
  assume a: "E \<in> set events \<and> retained R aT aC tr E \<and> last ?ms = E"
  then have "E \<in> set ?ms" by simp
  then obtain m ms' where "?ms = m # ms'" by (cases ?ms) auto
  with a have "map_of (selectEvents R events aT aC tr) (id' E) = Some E"
    by (simp add: selectEvents_lookup)
  then have "(id' E, E) \<in> set (selectEvents R events aT aC tr)" by (rule map_of_SomeD)
  then show "E \<in> snd ` set (selectEvents R events aT aC tr)" by force
qed

subsection \<open>Dictionaries and loops\<close>

lemma set_own_entries: "set (own_entries d) = set d"
  by (auto simp: own_entries_def)

lemma distinct_own_entries:
  "distinct (map fst d) \<Longrightarrow> distinct (map fst (own_entries d))"
  by (auto simp: own_entries_def distinct_map inj_on_def)

lemma own_entries_plain:
  "\<forall>k \<in> fst ` set d. array_index k = None \<Longrightarrow> own_entries d = d"
  by (simp add: own_entries_def filter_empty_conv)

lemma map_entry_keys: "map fst (AList.map_entry k f d) = map fst d"
  by (induction d) auto

lemma map_entry_as_map:
  "distinct (map fst d) \<Longrightarrow>
   AList.map_entry k f d = map (\<lambda>p. if fst p = k then (fst p, f (snd p)) else p) d"
proof (induction d)
  case Nil
  then show ?case by simp
next
  case (Cons p ps)
  show ?case
  proof (cases "fst p = k")
    case True
    with Cons.prems have "k \<notin> fst ` set ps" by simp
    then have "\<forall>q \<in> set ps. fst q \<noteq> k" by force
    then have "map (\<lambda>p. if fst p = k then (fst p, f (snd p)) else p) ps = ps"
      by (simp add: map_idI)
    with True show ?thesis by simp
  next
    case False
    with Cons show ?thesis by simp
  qed
qed

lemma foldl_assign_lanes:
  "distinct (map fst d) \<Longrightarrow> distinct ks \<Longrightarrow>
   foldl (assign_lanes R P) d ks =
     map (\<lambda>p. if fst p \<in> set ks then (fst p, with_offsets R P (fst p) (snd p)) else p) d"
proof (induction ks arbitrary: d)
  case Nil
  then show ?case by simp
next
  case (Cons k ks)
  let ?d1 = "assign_lanes R P d k"
  have d1: "?d1 = map (\<lambda>p. if fst p = k then (fst p, with_offsets R P k (snd p)) else p) d"
    unfolding assign_lanes_def using Cons.prems(1) by (rule map_entry_as_map)
  have "distinct (map fst ?d1)"
    unfolding assign_lanes_def using Cons.prems(1) by (simp add: map_entry_keys)
  with Cons have "foldl (assign_lanes R P) ?d1 ks =
     map (\<lambda>p. if fst p \<in> set ks then (fst p, with_offsets R P (fst p) (snd p)) else p) ?d1"
    by simp
  also have "\<dots> = map (\<lambda>p. if fst p \<in> set (k # ks) then (fst p, with_offsets R P (fst p) (snd p)) else p) d"
    unfolding d1 using Cons.prems(2) by auto
  finally show ?case by simp
qed

lemma fold_err_inv:
  assumes "fold_err f s xs = Inr t" and "I s"
    and "\<And>s x s'. I s \<Longrightarrow> x \<in> set xs \<Longrightarrow> f s x = Inr s' \<Longrightarrow> I s'"
  shows "I t"
  using assms
proof (induction xs arbitrary: s)
  case Nil
  then show ?case by simp
next
  case (Cons x xs)
  from Cons.prems(1) obtain s' where s': "f s x = Inr s'" and rest: "fold_err f s' xs = Inr t"
    by (auto split: sum.splits)
  have "I s'" using Cons.prems(2) s' Cons.prems(3)[of s x s'] by simp
  moreover have "I s2" if "I s1" "y \<in> set xs" "f s1 y = Inr s2" for s1 y s2
    using that Cons.prems(3)[of s1 y s2] by simp
  ultimately show ?case using rest Cons.IH[of s'] by blast
qed

lemma bucket_keys:
  assumes "bucket d ev = Inr d'"
  shows "map fst d' = map fst d \<or> (timestamp (base ev) \<notin> set (map fst d) \<and> map fst d' = map fst d @ [timestamp (base ev)])"
  using assms
  by (auto simp: bucket_def Let_def hasOwnProperty_def has_own_def put_def map_entry_keys
      update_keys map_of_eq_None_iff split: if_splits bool.splits)

lemma update_fresh: "k \<notin> fst ` set d \<Longrightarrow> AList.update k v d = d @ [(k, v)]"
  by (induction d) auto

lemma bucket_cases:
  assumes "bucket d ev = Inr d'" and "distinct (map fst d)"
  shows "d' = d
       \<or> d' = map (\<lambda>p. if fst p = timestamp (base ev)
                         then (fst p, (snd p)\<lparr>dt_events := dt_events (snd p) @ [ev]\<rparr>) else p) d
       \<or> (timestamp (base ev) \<notin> fst ` set d
            \<and> d' = d @ [(timestamp (base ev),
                      \<lparr>dt_timestamp = timestamp (base ev), dt_date = date (base ev),
                       dt_time = time (base ev), dt_events = [ev]\<rparr>)])"
proof (cases "has_own d (timestamp (base ev))")
  case True
  with assms(1) have "d' = AList.map_entry (timestamp (base ev))
      (\<lambda>g. g\<lparr>dt_events := dt_events g @ [ev]\<rparr>) d"
    by (auto simp: bucket_def Let_def hasOwnProperty_def split: if_splits)
  with assms(2) show ?thesis by (simp add: map_entry_as_map)
next
  case False
  then have fresh: "timestamp (base ev) \<notin> fst ` set d"
    by (simp add: has_own_def map_of_eq_None_iff)
  from False assms(1) have "d' = put (timestamp (base ev))
      \<lparr>dt_timestamp = timestamp (base ev), dt_date = date (base ev),
       dt_time = time (base ev), dt_events = [ev]\<rparr> d"
    by (auto simp: bucket_def Let_def hasOwnProperty_def split: if_splits)
  with fresh show ?thesis by (simp add: put_def update_fresh)
qed

lemma bucket_wf:
  assumes "bucket d ev = Inr d'" and "distinct (map fst d)"
    and "\<forall>p\<in>set d. dt_timestamp (snd p) = fst p"
  shows "distinct (map fst d') \<and> (\<forall>p\<in>set d'. dt_timestamp (snd p) = fst p)"
proof -
  from bucket_keys [OF assms(1)] assms(2) have "distinct (map fst d')" by auto
  moreover from bucket_cases [OF assms(1,2)] assms(3)
  have "\<forall>p\<in>set d'. dt_timestamp (snd p) = fst p" by (elim disjE) force+
  ultimately show ?thesis by simp
qed

lemma track_project_base:
  "track_project a dmin dmax P e = Inr (ev, P') \<Longrightarrow> base ev = e \<and> (\<not> a \<longrightarrow> P' = P)"
  by (auto simp: track_project_def Let_def
      split: if_splits option.splits sum.splits bool.splits project.splits)

lemma group_event_step:
  assumes "group_event a dmin dmax st e = Inr st'"
  shows "\<exists>ev. base ev = e \<and> bucket (snd st) ev = Inr (snd st') \<and> (\<not> a \<longrightarrow> fst st' = fst st)"
  using assms track_project_base [of a dmin dmax "fst st" e]
  by (auto simp: group_event_def split: sum.splits prod.splits)

lemma group_all_wf:
  assumes "group_all a dmin dmax events = Inr (projects, datetimes)"
  shows "distinct (map fst datetimes) \<and> (\<forall>p\<in>set datetimes. dt_timestamp (snd p) = fst p)
       \<and> (\<not> a \<longrightarrow> projects = [])"
proof -
  let ?I = "\<lambda>st. distinct (map fst (snd st)) \<and> (\<forall>p\<in>set (snd st). dt_timestamp (snd p) = fst p)
       \<and> (\<not> a \<longrightarrow> fst st = [])"
  have "?I (projects, datetimes)"
  proof (rule fold_err_inv [where I = ?I, OF assms [unfolded group_all_def]])
    show "?I ([], [])" by simp
  next
    fix st x st'
    assume I: "?I st" and step: "group_event a dmin dmax st x = Inr st'"
    from group_event_step [OF step] obtain ev
      where b: "bucket (snd st) ev = Inr (snd st')" and f: "\<not> a \<longrightarrow> fst st' = fst st" by blast
    from bucket_wf [OF b] I f show "?I st'" by simp
  qed
  then show ?thesis by simp
qed

lemma selectDatetimes_char:
  assumes "group_all a dmin dmax events = Inr (projects, datetimes)"
  shows "selectDatetimes a R dmin dmax dateOf events =
     Inr (object_values (map (\<lambda>p. (fst p, with_offsets R projects (fst p) (snd p))) datetimes))"
proof -
  let ?ks = "sort_key dateOf (object_keys datetimes)"
  from group_all_wf [OF assms] have d: "distinct (map fst datetimes)" by simp
  then have "distinct ?ks" by (simp add: object_keys_def distinct_own_entries)
  with d have "foldl (assign_lanes R projects) datetimes ?ks =
     map (\<lambda>p. if fst p \<in> set ?ks then (fst p, with_offsets R projects (fst p) (snd p)) else p) datetimes"
    by (rule foldl_assign_lanes)
  also have "\<dots> = map (\<lambda>p. (fst p, with_offsets R projects (fst p) (snd p))) datetimes"
    by (rule map_cong) (auto simp: object_keys_def set_own_entries)
  finally show ?thesis using assms by (simp add: selectDatetimes_def)
qed

lemma first_index_notin: "x \<notin> set xs \<Longrightarrow> first_index xs x i = -1"
  by (induction xs arbitrary: i) auto

lemma first_index_ge: "x \<in> set xs \<Longrightarrow> i \<le> first_index xs x i"
proof (induction xs arbitrary: i)
  case Nil
  then show ?case by simp
next
  case (Cons y ys)
  show ?case
  proof (cases "y = x")
    case True
    then show ?thesis by simp
  next
    case False
    with Cons.prems have "x \<in> set ys" by simp
    from Cons.IH [OF this, of "i + 1"] False show ?thesis by simp
  qed
qed

lemma first_index_filter_mono:
  assumes "P a" and "P b" and "a \<in> set xs" and "b \<in> set xs"
    and "first_index xs a i < first_index xs b i"
  shows "first_index (filter P xs) a j < first_index (filter P xs) b j"
  using assms(3-5)
proof (induction xs arbitrary: i j)
  case Nil
  then show ?case by simp
next
  case (Cons y ys)
  show ?case
  proof (cases "y = a")
    case True
    with Cons.prems(3) have ne: "b \<noteq> a" by auto
    with True Cons.prems(2) assms(2) have "b \<in> set (filter P ys)" by simp
    from first_index_ge [OF this, of "j + 1"] True ne assms(1) show ?thesis by simp
  next
    case False
    show ?thesis
    proof (cases "y = b")
      case True
      from False Cons.prems(1) have "a \<in> set ys" by simp
      from first_index_ge [OF this, of "i + 1"] True False Cons.prems(3) show ?thesis by simp
    next
      case nb: False
      with False Cons.prems have "a \<in> set ys" "b \<in> set ys"
        "first_index ys a (i + 1) < first_index ys b (i + 1)" by simp_all
      from Cons.IH [OF this] False nb show ?thesis by simp
    qed
  qed
qed

subsection \<open>Grouping by timestamp\<close>

lemma set_object_values: "set (object_values d) = snd ` set d"
  by (simp add: object_values_def set_own_entries)

lemma offsets_formula:
  assumes "group_all a dmin dmax events = Inr (projects, datetimes)"
    and "selectDatetimes a R dmin dmax dateOf events = Inr out"
    and "g \<in> set out" and "e \<in> set (dt_events g)"
  shows "projectOffset e =
     Some (indexOf (activeProjects projects (dt_timestamp g)) (project e) * (2 * R + 5))"
proof -
  from selectDatetimes_char [OF assms(1), of R dateOf] assms(2)
  have "out = object_values (map (\<lambda>p. (fst p, with_offsets R projects (fst p) (snd p))) datetimes)"
    by simp
  with assms(3) obtain p where p: "p \<in> set datetimes"
    and g: "g = with_offsets R projects (fst p) (snd p)"
    by (auto simp: set_object_values)
  from group_all_wf [OF assms(1)] p have "dt_timestamp (snd p) = fst p" by simp
  with g have ts: "dt_timestamp g = fst p" by (simp add: with_offsets_def)
  from assms(4) g ts show ?thesis by (auto simp: with_offsets_def)
qed

lemma sorted_drop_middle: "sorted (xs @ y # zs) \<Longrightarrow> sorted (xs @ zs)"
  by (auto simp: sorted_append)

lemma group_fold_sorted:
  assumes "fold_err (group_event a dmin dmax) st es = Inr st'"
    and "distinct (map fst (snd st))"
    and "sorted (map dateOf (map fst (snd st)) @ map (\<lambda>e. dateOf (timestamp e)) es)"
  shows "sorted (map dateOf (map fst (snd st')))
       \<and> fst ` set (snd st') \<subseteq> fst ` set (snd st) \<union> timestamp ` set es"
  using assms
proof (induction es arbitrary: st)
  case Nil
  then show ?case by simp
next
  case (Cons e es)
  from Cons.prems(1) obtain st1 where step: "group_event a dmin dmax st e = Inr st1"
    and rest: "fold_err (group_event a dmin dmax) st1 es = Inr st'"
    by (auto split: sum.splits)
  from group_event_step [OF step] obtain ev where ev: "base ev = e"
    and b: "bucket (snd st) ev = Inr (snd st1)" by blast
  from bucket_keys [OF b] ev
  have keys: "map fst (snd st1) = map fst (snd st)
      \<or> (timestamp e \<notin> set (map fst (snd st)) \<and> map fst (snd st1) = map fst (snd st) @ [timestamp e])"
    by simp
  from keys Cons.prems(2) have d1: "distinct (map fst (snd st1))" by auto
  have s1: "sorted (map dateOf (map fst (snd st1)) @ map (\<lambda>e. dateOf (timestamp e)) es)"
  proof (rule disjE [OF keys])
    assume same: "map fst (snd st1) = map fst (snd st)"
    from Cons.prems(3)
    have "sorted (map dateOf (map fst (snd st)) @ dateOf (timestamp e) # map (\<lambda>e. dateOf (timestamp e)) es)"
      by simp
    then have "sorted (map dateOf (map fst (snd st)) @ map (\<lambda>e. dateOf (timestamp e)) es)"
      by (rule sorted_drop_middle)
    with same show ?thesis by simp
  next
    assume "timestamp e \<notin> set (map fst (snd st)) \<and> map fst (snd st1) = map fst (snd st) @ [timestamp e]"
    with Cons.prems(3) show ?thesis by simp
  qed
  from Cons.IH [OF rest d1 s1]
  have "sorted (map dateOf (map fst (snd st')))"
    and sub: "fst ` set (snd st') \<subseteq> fst ` set (snd st1) \<union> timestamp ` set es" by simp_all
  moreover from keys have "fst ` set (snd st1) \<subseteq> fst ` set (snd st) \<union> {timestamp e}"
  proof
    assume "map fst (snd st1) = map fst (snd st)"
    then have "set (map fst (snd st1)) = set (map fst (snd st))" by simp
    then show ?thesis by auto
  next
    assume "timestamp e \<notin> set (map fst (snd st)) \<and> map fst (snd st1) = map fst (snd st) @ [timestamp e]"
    then have "set (map fst (snd st1)) = set (map fst (snd st) @ [timestamp e])" by simp
    then show ?thesis by auto
  qed
  ultimately show ?case by auto
qed

subsection \<open>Projects, their intervals and the events of a group\<close>

lemma fold_err_snoc:
  "fold_err f s (xs @ [x]) = (case fold_err f s xs of Inl e \<Rightarrow> Inl e | Inr s' \<Rightarrow> f s' x)"
  by (induction xs arbitrary: s) (auto split: sum.splits)

lemma discovery_order_snoc:
  "discovery_order (es @ [e]) =
     (case first_tag e of
        None \<Rightarrow> discovery_order es
      | Some t \<Rightarrow> if t \<in> set (discovery_order es) then discovery_order es
                  else discovery_order es @ [t])"
  by (simp add: discovery_order_def map_filter_def split: option.splits)

lemma set_discovery_order:
  "set (discovery_order es) = {t. \<exists>e\<in>set es. first_tag e = Some t}"
  by (force simp: discovery_order_def map_filter_def)

lemma track_project_cases:
  assumes "track_project True dmin dmax P e = Inr (ev, P')"
  shows "base ev = e \<and>
    (case first_tag e of
       None \<Rightarrow> project ev = Null \<and> P' = P
     | Some t \<Rightarrow> project ev = Tag t \<and>
         (if has_own P t
          then P' = AList.map_entry t (\<lambda>iv. \<lparr>start = dmin (start iv) (timestamp e),
                                            end' = dmax (end' iv) (timestamp e)\<rparr>) P
          else P' = put t \<lparr>start = timestamp e, end' = timestamp e\<rparr> P))"
  using assms
  by (auto simp: track_project_def first_tag_def Let_def hasOwnProperty_def
      split: option.splits list.splits if_splits sum.splits bool.splits)


lemma map_entry_key_set: "fst ` set (AList.map_entry k f d) = fst ` set d"
  by (induction d) auto

lemma conj_allI: "P \<Longrightarrow> (\<And>A. Q A \<Longrightarrow> R A) \<Longrightarrow> P \<and> (\<forall>A. Q A \<longrightarrow> R A)"
  by simp

lemma projects_step:
  assumes tp: "track_project True dmin dmax P e = Inr (ev, P')"
    and keys: "map fst P = filter (\<lambda>k. k \<noteq> ''__proto__'') (discovery_order es)"
    and spans: "\<forall>A. A \<in> fst ` set P \<longrightarrow> (\<exists>t ts.
        map timestamp (filter (\<lambda>e. first_tag e = Some A) es) = t # ts
        \<and> map_of P A = Some \<lparr>start = foldl dmin t ts, end' = foldl dmax t ts\<rparr>)"
  shows "map fst P' = filter (\<lambda>k. k \<noteq> ''__proto__'') (discovery_order (es @ [e]))
       \<and> (\<forall>A. A \<in> fst ` set P' \<longrightarrow> (\<exists>t ts.
        map timestamp (filter (\<lambda>e. first_tag e = Some A) (es @ [e])) = t # ts
        \<and> map_of P' A = Some \<lparr>start = foldl dmin t ts, end' = foldl dmax t ts\<rparr>))"
proof (cases "first_tag e")
  case None
  with track_project_cases [OF tp] have same: "P' = P" by simp
  from None have "filter (\<lambda>x. first_tag x = Some A) (es @ [e]) = filter (\<lambda>x. first_tag x = Some A) es" for A
    by simp
  with same None keys spans show ?thesis by (simp add: discovery_order_snoc)
next
  case (Some t)
  note tag = Some
  show ?thesis
  proof (cases "has_own P t")
    case True
    let ?f = "\<lambda>iv. \<lparr>start = dmin (start iv) (timestamp e), end' = dmax (end' iv) (timestamp e)\<rparr>"
    from True tag track_project_cases [OF tp] have P': "P' = AList.map_entry t ?f P" by simp
    from True have tin: "t \<in> set (map fst P)" by (simp add: has_own_def map_of_eq_None_iff)
    then have "t \<in> set (discovery_order es)" unfolding keys by simp
    with tag keys P' have k: "map fst P' = filter (\<lambda>k. k \<noteq> ''__proto__'') (discovery_order (es @ [e]))"
      by (simp add: discovery_order_snoc map_entry_keys)
    have "\<exists>t0 ts. map timestamp (filter (\<lambda>e. first_tag e = Some A) (es @ [e])) = t0 # ts
        \<and> map_of P' A = Some \<lparr>start = foldl dmin t0 ts, end' = foldl dmax t0 ts\<rparr>"
      if A: "A \<in> fst ` set P'" for A
    proof -
      from A P' have "A \<in> fst ` set P" by (simp add: map_entry_key_set)
      from spans [rule_format, OF this] obtain t0 ts where
        ts: "map timestamp (filter (\<lambda>e. first_tag e = Some A) es) = t0 # ts"
        and iv: "map_of P A = Some \<lparr>start = foldl dmin t0 ts, end' = foldl dmax t0 ts\<rparr>"
        by (elim exE conjE) (rule that; assumption)
      show ?thesis
      proof (cases "A = t")
        case True
        with tag ts have "map timestamp (filter (\<lambda>e. first_tag e = Some A) (es @ [e]))
            = t0 # (ts @ [timestamp e])" by simp
        moreover from True iv P'
        have "map_of P' A = Some \<lparr>start = foldl dmin t0 (ts @ [timestamp e]),
                                  end' = foldl dmax t0 (ts @ [timestamp e])\<rparr>"
          by (simp add: map_of_map_entry)
        ultimately show ?thesis by - (rule exI, rule exI, rule conjI, assumption, assumption)
      next
        case False
        with tag ts have "map timestamp (filter (\<lambda>e. first_tag e = Some A) (es @ [e])) = t0 # ts"
          by auto
        moreover from False iv P'
        have "map_of P' A = Some \<lparr>start = foldl dmin t0 ts, end' = foldl dmax t0 ts\<rparr>"
          by (simp add: map_of_map_entry)
        ultimately show ?thesis by - (rule exI, rule exI, rule conjI, assumption, assumption)
      qed
    qed
    from conj_allI [of _ "\<lambda>A. A \<in> fst ` set P'", OF k this] show ?thesis .
  next
    case False
    from False tag track_project_cases [OF tp]
    have P': "P' = put t \<lparr>start = timestamp e, end' = timestamp e\<rparr> P" by simp
    from False have fresh: "t \<notin> fst ` set P" by (simp add: has_own_def map_of_eq_None_iff)
    show ?thesis
    proof (cases "t = ''__proto__''")
      case True
      with P' have same: "P' = P" by (simp add: put_def)
      from True tag keys same
      have k: "map fst P' = filter (\<lambda>k. k \<noteq> ''__proto__'') (discovery_order (es @ [e]))"
        by (simp add: discovery_order_snoc)
      have "\<exists>t0 ts. map timestamp (filter (\<lambda>e. first_tag e = Some A) (es @ [e])) = t0 # ts
          \<and> map_of P' A = Some \<lparr>start = foldl dmin t0 ts, end' = foldl dmax t0 ts\<rparr>"
        if A: "A \<in> fst ` set P'" for A
      proof -
        from A same have "A \<in> set (map fst P)" by simp
        then have "A \<in> set (filter (\<lambda>k. k \<noteq> ''__proto__'') (discovery_order es))"
          unfolding keys .
        then have "A \<noteq> ''__proto__''" by simp
        with True tag have "filter (\<lambda>e. first_tag e = Some A) (es @ [e])
            = filter (\<lambda>e. first_tag e = Some A) es" by auto
        with A same spans show ?thesis by simp
      qed
      from conj_allI [of _ "\<lambda>A. A \<in> fst ` set P'", OF k this] show ?thesis .
    next
      case np: False
      let ?v = "\<lparr>start = timestamp e, end' = timestamp e\<rparr>"
      from np P' fresh have P'': "P' = P @ [(t, ?v)]" by (simp add: put_def update_fresh)
      from fresh have "t \<notin> set (map fst P)" by simp
      then have "t \<notin> set (filter (\<lambda>k. k \<noteq> ''__proto__'') (discovery_order es))"
        unfolding keys .
      with np have notD: "t \<notin> set (discovery_order es)" by simp
      with tag keys np P''
      have k: "map fst P' = filter (\<lambda>k. k \<noteq> ''__proto__'') (discovery_order (es @ [e]))"
        by (simp add: discovery_order_snoc)
      from notD have none: "filter (\<lambda>e. first_tag e = Some t) es = []"
        by (auto simp: set_discovery_order filter_empty_conv)
      have "\<exists>t0 ts. map timestamp (filter (\<lambda>e. first_tag e = Some A) (es @ [e])) = t0 # ts
          \<and> map_of P' A = Some \<lparr>start = foldl dmin t0 ts, end' = foldl dmax t0 ts\<rparr>"
        if A: "A \<in> fst ` set P'" for A
      proof (cases "A = t")
        case True
        with tag none have "map timestamp (filter (\<lambda>e. first_tag e = Some A) (es @ [e])) = [timestamp e]"
          by simp
        moreover from fresh have "map_of P t = None" by (simp add: map_of_eq_None_iff)
        with True P'' have "map_of P' A = Some \<lparr>start = foldl dmin (timestamp e) [],
            end' = foldl dmax (timestamp e) []\<rparr>" by (simp add: map_add_def)
        ultimately show ?thesis by - (rule exI, rule exI, rule conjI, assumption, assumption)
      next
        case False
        with A P'' have Ain: "A \<in> fst ` set P" by auto
        from spans [rule_format, OF this] obtain t0 ts where
          ts: "map timestamp (filter (\<lambda>e. first_tag e = Some A) es) = t0 # ts"
          and iv: "map_of P A = Some \<lparr>start = foldl dmin t0 ts, end' = foldl dmax t0 ts\<rparr>"
          by (elim exE conjE) (rule that; assumption)
        from False tag ts have "map timestamp (filter (\<lambda>e. first_tag e = Some A) (es @ [e])) = t0 # ts"
          by auto
        moreover from iv P'' have "map_of P' A = Some \<lparr>start = foldl dmin t0 ts, end' = foldl dmax t0 ts\<rparr>"
          by (simp add: map_add_def)
        ultimately show ?thesis by - (rule exI, rule exI, rule conjI, assumption, assumption)
      qed
      from conj_allI [of _ "\<lambda>A. A \<in> fst ` set P'", OF k this] show ?thesis .
    qed
  qed
qed

lemma group_fold_projects:
  "fold_err (group_event True dmin dmax) ([], []) es = Inr (P, D) \<Longrightarrow>
     map fst P = filter (\<lambda>k. k \<noteq> ''__proto__'') (discovery_order es)
     \<and> (\<forall>A. A \<in> fst ` set P \<longrightarrow> (\<exists>t ts.
          map timestamp (filter (\<lambda>e. first_tag e = Some A) es) = t # ts
          \<and> map_of P A = Some \<lparr>start = foldl dmin t ts, end' = foldl dmax t ts\<rparr>))"
proof (induction es arbitrary: P D rule: rev_induct)
  case Nil
  then show ?case by (simp add: discovery_order_def)
next
  case (snoc e es)
  from snoc.prems obtain P0 D0 where
    pre: "fold_err (group_event True dmin dmax) ([], []) es = Inr (P0, D0)"
    and step: "group_event True dmin dmax (P0, D0) e = Inr (P, D)"
    by (auto simp: fold_err_snoc split: sum.splits)
  from step obtain ev where tp: "track_project True dmin dmax P0 e = Inr (ev, P)"
    by (auto simp: group_event_def split: sum.splits prod.splits)
  from snoc.IH [OF pre] have
    keys: "map fst P0 = filter (\<lambda>k. k \<noteq> ''__proto__'') (discovery_order es)"
    and spans: "\<forall>A. A \<in> fst ` set P0 \<longrightarrow> (\<exists>t ts.
          map timestamp (filter (\<lambda>e. first_tag e = Some A) es) = t # ts
          \<and> map_of P0 A = Some \<lparr>start = foldl dmin t ts, end' = foldl dmax t ts\<rparr>)"
    by simp_all
  from projects_step [OF tp keys spans] show ?case .
qed


lemma map_insort_key:
  "map g (insort_key (\<lambda>p. f (g p)) x xs) = insort_key f (g x) (map g xs)"
  by (induction xs) simp_all

lemma map_sort_key_comp:
  "map g (sort_key (\<lambda>p. f (g p)) xs) = sort_key f (map g xs)"
  by (induction xs) (simp_all add: map_insort_key)

lemma object_keys_split:
  "object_keys d =
     sort_key index_value (filter (\<lambda>k. array_index k \<noteq> None) (map fst d))
     @ filter (\<lambda>k. array_index k = None) (map fst d)"
  by (simp add: object_keys_def own_entries_def map_sort_key_comp filter_map comp_def)

lemma first_index_append_in:
  "x \<in> set xs \<Longrightarrow> first_index (xs @ ys) x i = first_index xs x i"
  by (induction xs arbitrary: i) auto

lemma first_index_append_notin:
  "x \<notin> set xs \<Longrightarrow> first_index (xs @ ys) x i = first_index ys x (i + int (length xs))"
  by (induction xs arbitrary: i) (auto simp: algebra_simps)

lemma first_index_lt:
  "x \<in> set xs \<Longrightarrow> first_index xs x i < i + int (length xs)"
proof (induction xs arbitrary: i)
  case Nil
  then show ?case by simp
next
  case (Cons y ys)
  show ?case
  proof (cases "y = x")
    case True
    then show ?thesis by simp
  next
    case False
    with Cons.prems have "x \<in> set ys" by simp
    from Cons.IH [OF this, of "i + 1"] False show ?thesis by simp
  qed
qed

lemma first_index_sorted:
  assumes "sorted (map f xs)" and "a \<in> set xs" and "b \<in> set xs" and "f a < (f b :: nat)"
  shows "first_index xs a i < first_index xs b i"
  using assms
proof (induction xs arbitrary: i)
  case Nil
  then show ?case by simp
next
  case (Cons y ys)
  show ?case
  proof (cases "y = a")
    case True
    with Cons.prems(4) have ne: "b \<noteq> a" by auto
    with True Cons.prems(3) have "b \<in> set ys" by simp
    from first_index_ge [OF this, of "i + 1"] True ne show ?thesis by simp
  next
    case False
    with Cons.prems(2) have ain: "a \<in> set ys" by simp
    show ?thesis
    proof (cases "y = b")
      case True
      from Cons.prems(1) ain have "f y \<le> f a" by simp
      with True Cons.prems(4) show ?thesis by simp
    next
      case nb: False
      with Cons.prems(3) have "b \<in> set ys" by simp
      from Cons.IH [OF _ ain this Cons.prems(4), of "i + 1"] Cons.prems(1) False nb
      show ?thesis by simp
    qed
  qed
qed

lemma key_order:
  assumes A: "A \<in> set ks" and B: "B \<in> set ks"
    and ord: "(array_index A \<noteq> None \<and> array_index B \<noteq> None \<and> index_value A < index_value B)
       \<or> (array_index A \<noteq> None \<and> array_index B = None)
       \<or> (array_index A = None \<and> array_index B = None \<and> first_index ks A 0 < first_index ks B 0)"
  shows "first_index (sort_key index_value (filter (\<lambda>k. array_index k \<noteq> None) ks)
            @ filter (\<lambda>k. array_index k = None) ks) A 0
       < first_index (sort_key index_value (filter (\<lambda>k. array_index k \<noteq> None) ks)
            @ filter (\<lambda>k. array_index k = None) ks) B 0"
proof -
  let ?ix = "sort_key index_value (filter (\<lambda>k. array_index k \<noteq> None) ks)"
  let ?pl = "filter (\<lambda>k. array_index k = None) ks"
  from ord show ?thesis
  proof (elim disjE conjE)
    assume both: "array_index A \<noteq> None" "array_index B \<noteq> None" "index_value A < index_value B"
    with A B have Ain: "A \<in> set ?ix" and Bin: "B \<in> set ?ix" by simp_all
    have "sorted (map index_value ?ix)" by simp
    from first_index_sorted [OF this Ain Bin both(3), of 0]
    show ?thesis by (simp only: first_index_append_in [OF Ain] first_index_append_in [OF Bin])
  next
    assume mixed: "array_index A \<noteq> None" "array_index B = None"
    with A have Ain: "A \<in> set ?ix" by simp
    from mixed have Bout: "B \<notin> set ?ix" by simp
    from mixed B have Bin: "B \<in> set ?pl" by simp
    from first_index_lt [OF Ain, of 0] have "first_index ?ix A 0 < int (length ?ix)" by simp
    moreover from first_index_ge [OF Bin, of "0 + int (length ?ix)"]
    have "int (length ?ix) \<le> first_index ?pl B (0 + int (length ?ix))" by simp
    ultimately show ?thesis
      by (simp only: first_index_append_in [OF Ain] first_index_append_notin [OF Bout])
  next
    assume plain: "array_index A = None" "array_index B = None" "first_index ks A 0 < first_index ks B 0"
    from plain have Aout: "A \<notin> set ?ix" and Bout: "B \<notin> set ?ix" by simp_all
    from first_index_filter_mono [of "\<lambda>k. array_index k = None" A B ks 0 "0 + int (length ?ix)"]
      plain A B
    have "first_index ?pl A (0 + int (length ?ix)) < first_index ?pl B (0 + int (length ?ix))"
      by simp
    then show ?thesis
      by (simp only: first_index_append_notin [OF Aout] first_index_append_notin [OF Bout])
  qed
qed


lemma track_project_project:
  assumes "track_project a dmin dmax P e = Inr (ev, P')"
  shows "base ev = e
       \<and> project ev = (if a then (case first_tag e of Some t \<Rightarrow> Tag t | None \<Rightarrow> Null) else Undefined)"
  using assms
  by (auto simp: track_project_def first_tag_def Let_def
      split: option.splits list.splits if_splits sum.splits bool.splits)

lemma bucket_step:
  assumes "bucket d ev = Inr d'"
  shows "(has_own d (timestamp (base ev))
          \<and> d' = AList.map_entry (timestamp (base ev)) (\<lambda>g. g\<lparr>dt_events := dt_events g @ [ev]\<rparr>) d)
       \<or> (\<not> has_own d (timestamp (base ev))
          \<and> d' = put (timestamp (base ev))
                   \<lparr>dt_timestamp = timestamp (base ev), dt_date = date (base ev),
                    dt_time = time (base ev), dt_events = [ev]\<rparr> d)"
  using assms
  by (auto simp: bucket_def Let_def hasOwnProperty_def split: if_splits bool.splits)

lemma groups_step:
  assumes b: "bucket d ev = Inr d'" and ev: "base ev = e" "project ev = pj e"
    and dist: "distinct (map fst d)"
    and cov: "\<forall>x. x \<in> set es \<and> timestamp x \<noteq> ''__proto__'' \<longrightarrow> timestamp x \<in> fst ` set d"
    and inv: "\<forall>p. p \<in> set d \<longrightarrow>
        map base (dt_events (snd p)) = filter (\<lambda>x. timestamp x = fst p) es
        \<and> (\<forall>v. v \<in> set (dt_events (snd p)) \<longrightarrow> project v = pj (base v))"
  shows "(\<forall>x. x \<in> set (es @ [e]) \<and> timestamp x \<noteq> ''__proto__'' \<longrightarrow> timestamp x \<in> fst ` set d')
       \<and> (\<forall>p. p \<in> set d' \<longrightarrow>
        map base (dt_events (snd p)) = filter (\<lambda>x. timestamp x = fst p) (es @ [e])
        \<and> (\<forall>v. v \<in> set (dt_events (snd p)) \<longrightarrow> project v = pj (base v)))"
proof (cases "has_own d (timestamp e)")
  case True
  let ?up = "\<lambda>p. if fst p = timestamp e
      then (fst p, (snd p)\<lparr>dt_events := dt_events (snd p) @ [ev]\<rparr>) else p"
  from True bucket_step [OF b] ev(1)
  have dm: "d' = AList.map_entry (timestamp e) (\<lambda>g. g\<lparr>dt_events := dt_events g @ [ev]\<rparr>) d" by simp
  with dist have d': "d' = map ?up d" by (simp add: map_entry_as_map)
  from True have tin: "timestamp e \<in> fst ` set d" by (simp add: has_own_def map_of_eq_None_iff)
  have keys: "fst ` set d' = fst ` set d" unfolding dm by (rule map_entry_key_set)
  have c: "timestamp x \<in> fst ` set d'"
    if "x \<in> set (es @ [e]) \<and> timestamp x \<noteq> ''__proto__''" for x
    using that cov tin unfolding keys by auto
  have i: "map base (dt_events (snd p)) = filter (\<lambda>x. timestamp x = fst p) (es @ [e])
        \<and> (\<forall>v. v \<in> set (dt_events (snd p)) \<longrightarrow> project v = pj (base v))"
    if "p \<in> set d'" for p
  proof -
    from that have "p \<in> ?up ` set d" unfolding d' by simp
    then obtain q where p: "p = ?up q" and q: "q \<in> set d" by (rule imageE)
    from inv [rule_format, OF q] have iq: "map base (dt_events (snd q)) = filter (\<lambda>x. timestamp x = fst q) es"
      and pq: "\<forall>v. v \<in> set (dt_events (snd q)) \<longrightarrow> project v = pj (base v)" by simp_all
    show ?thesis
    proof (cases "fst q = timestamp e")
      case True
      with p iq pq ev show ?thesis by auto
    next
      case False
      with p iq pq show ?thesis by auto
    qed
  qed
  from c i show ?thesis by (intro conjI allI impI) simp_all
next
  case False
  let ?g = "\<lparr>dt_timestamp = timestamp e, dt_date = date e, dt_time = time e, dt_events = [ev]\<rparr>"
  from False bucket_step [OF b] ev(1) have d0: "d' = put (timestamp e) ?g d" by simp
  from False have fresh: "timestamp e \<notin> fst ` set d" by (simp add: has_own_def map_of_eq_None_iff)
  have old: "map base (dt_events (snd p)) = filter (\<lambda>x. timestamp x = fst p) (es @ [e])
        \<and> (\<forall>v. v \<in> set (dt_events (snd p)) \<longrightarrow> project v = pj (base v))"
    if "p \<in> set d" for p
  proof -
    from that fresh have "fst p \<noteq> timestamp e" by force
    with inv [rule_format, OF that] show ?thesis by simp
  qed
  show ?thesis
  proof (cases "timestamp e = ''__proto__''")
    case True
    with d0 have same: "d' = d" by (simp add: put_def)
    have c: "timestamp x \<in> fst ` set d'"
      if "x \<in> set (es @ [e]) \<and> timestamp x \<noteq> ''__proto__''" for x
      using that cov True unfolding same by auto
    from c old show ?thesis unfolding same by (intro conjI allI impI) simp_all
  next
    case np: False
    with d0 fresh have d': "d' = d @ [(timestamp e, ?g)]" by (simp add: put_def update_fresh)
    have c: "timestamp x \<in> fst ` set d'"
      if "x \<in> set (es @ [e]) \<and> timestamp x \<noteq> ''__proto__''" for x
      using that cov unfolding d' by auto
    have "timestamp x \<noteq> timestamp e" if "x \<in> set es" for x
    proof
      assume eq: "timestamp x = timestamp e"
      with np that cov [rule_format, of x] have "timestamp x \<in> fst ` set d" by simp
      with eq fresh show False by simp
    qed
    then have none: "filter (\<lambda>x. timestamp x = timestamp e) es = []"
      by (simp add: filter_empty_conv)
    have i: "map base (dt_events (snd p)) = filter (\<lambda>x. timestamp x = fst p) (es @ [e])
        \<and> (\<forall>v. v \<in> set (dt_events (snd p)) \<longrightarrow> project v = pj (base v))"
      if "p \<in> set d'" for p
    proof (cases "p \<in> set d")
      case True
      then show ?thesis by (rule old)
    next
      case False
      with that d' have "p = (timestamp e, ?g)" by simp
      with none ev show ?thesis by simp
    qed
    from c i show ?thesis by (intro conjI allI impI) simp_all
  qed
qed

lemma group_fold_groups:
  "fold_err (group_event a dmin dmax) ([], []) es = Inr (P, D) \<Longrightarrow>
     distinct (map fst D)
     \<and> (\<forall>x. x \<in> set es \<and> timestamp x \<noteq> ''__proto__'' \<longrightarrow> timestamp x \<in> fst ` set D)
     \<and> (\<forall>p. p \<in> set D \<longrightarrow>
        map base (dt_events (snd p)) = filter (\<lambda>x. timestamp x = fst p) es
        \<and> (\<forall>v. v \<in> set (dt_events (snd p)) \<longrightarrow>
             project v = (if a then (case first_tag (base v) of Some t \<Rightarrow> Tag t | None \<Rightarrow> Null)
                          else Undefined)))"
proof (induction es arbitrary: P D rule: rev_induct)
  case Nil
  then show ?case by simp
next
  case (snoc e es)
  let ?pj = "\<lambda>e. if a then (case first_tag e of Some t \<Rightarrow> Tag t | None \<Rightarrow> Null) else Undefined"
  from snoc.prems obtain P0 D0 where
    pre: "fold_err (group_event a dmin dmax) ([], []) es = Inr (P0, D0)"
    and step: "group_event a dmin dmax (P0, D0) e = Inr (P, D)"
    by (auto simp: fold_err_snoc split: sum.splits)
  from step obtain ev where tp: "track_project a dmin dmax P0 e = Inr (ev, P)"
    and b: "bucket D0 ev = Inr D"
    by (auto simp: group_event_def split: sum.splits prod.splits)
  from track_project_project [OF tp] have ev: "base ev = e" "project ev = ?pj e" by simp_all
  from snoc.IH [OF pre] have dist: "distinct (map fst D0)"
    and cov: "\<forall>x. x \<in> set es \<and> timestamp x \<noteq> ''__proto__'' \<longrightarrow> timestamp x \<in> fst ` set D0"
    and inv: "\<forall>p. p \<in> set D0 \<longrightarrow>
        map base (dt_events (snd p)) = filter (\<lambda>x. timestamp x = fst p) es
        \<and> (\<forall>v. v \<in> set (dt_events (snd p)) \<longrightarrow> project v = ?pj (base v))"
    by simp_all
  from bucket_keys [OF b] dist have "distinct (map fst D)" by auto
  with groups_step [of D0 ev D e ?pj es, OF b ev dist cov inv] show ?case by simp
qed


lemma out_groups:
  assumes "group_all a dmin dmax events = Inr (projects, datetimes)"
    and "selectDatetimes a R dmin dmax dateOf events = Inr out"
    and "g \<in> set out"
  shows "map base (dt_events g) = filter (\<lambda>e. timestamp e = dt_timestamp g) (forEach_elems events)
       \<and> (\<forall>v. v \<in> set (dt_events g) \<longrightarrow>
             project v = (if a then (case first_tag (base v) of Some t \<Rightarrow> Tag t | None \<Rightarrow> Null)
                          else Undefined))"
proof -
  from selectDatetimes_char [OF assms(1), of R dateOf] assms(2)
  have "out = object_values (map (\<lambda>p. (fst p, with_offsets R projects (fst p) (snd p))) datetimes)"
    by simp
  with assms(3) have "g \<in> (\<lambda>p. with_offsets R projects (fst p) (snd p)) ` set datetimes"
    by (simp add: set_object_values image_image)
  then obtain p where g: "g = with_offsets R projects (fst p) (snd p)" and p: "p \<in> set datetimes"
    by (rule imageE)
  from group_all_wf [OF assms(1)] p have "dt_timestamp (snd p) = fst p" by simp
  with g have ts: "dt_timestamp g = fst p" by (simp add: with_offsets_def)
  from group_fold_groups [OF assms(1) [unfolded group_all_def]]
  have "\<forall>p. p \<in> set datetimes \<longrightarrow>
        map base (dt_events (snd p)) = filter (\<lambda>x. timestamp x = fst p) (forEach_elems events)
        \<and> (\<forall>v. v \<in> set (dt_events (snd p)) \<longrightarrow>
             project v = (if a then (case first_tag (base v) of Some t \<Rightarrow> Tag t | None \<Rightarrow> Null)
                          else Undefined))"
    by simp
  from this [rule_format, OF p]
  have m: "map base (dt_events (snd p)) = filter (\<lambda>x. timestamp x = fst p) (forEach_elems events)"
    and pr: "\<forall>v. v \<in> set (dt_events (snd p)) \<longrightarrow>
             project v = (if a then (case first_tag (base v) of Some t \<Rightarrow> Tag t | None \<Rightarrow> Null)
                          else Undefined)"
    by simp_all
  from m ts have "map base (dt_events g) = filter (\<lambda>e. timestamp e = dt_timestamp g) (forEach_elems events)"
    unfolding g by (simp add: with_offsets_def comp_def)
  moreover from pr have "\<forall>v. v \<in> set (dt_events g) \<longrightarrow>
             project v = (if a then (case first_tag (base v) of Some t \<Rightarrow> Tag t | None \<Rightarrow> Null)
                          else Undefined)"
    unfolding g by (auto simp: with_offsets_def)
  ultimately show ?thesis by simp
qed

lemma out_covers:
  assumes "group_all a dmin dmax events = Inr (projects, datetimes)"
    and "selectDatetimes a R dmin dmax dateOf events = Inr out"
    and "e \<in> set (forEach_elems events)" and "timestamp e \<noteq> ''__proto__''"
  shows "timestamp e \<in> dt_timestamp ` set out"
proof -
  from selectDatetimes_char [OF assms(1), of R dateOf] assms(2)
  have out: "set out = (\<lambda>p. with_offsets R projects (fst p) (snd p)) ` set datetimes"
    by (simp add: set_object_values image_image)
  from group_fold_groups [OF assms(1) [unfolded group_all_def]]
  have "\<forall>x. x \<in> set (forEach_elems events) \<and> timestamp x \<noteq> ''__proto__''
      \<longrightarrow> timestamp x \<in> fst ` set datetimes" by simp
  from this [rule_format, of e] assms(3,4) have "timestamp e \<in> fst ` set datetimes" by simp
  then obtain p where ts: "timestamp e = fst p" and p: "p \<in> set datetimes" by (rule imageE)
  from group_all_wf [OF assms(1)] p have "dt_timestamp (snd p) = fst p" by simp
  with ts have "timestamp e = dt_timestamp (with_offsets R projects (fst p) (snd p))"
    by (simp add: with_offsets_def)
  moreover from p have "with_offsets R projects (fst p) (snd p) \<in> set out"
    unfolding out by (rule imageI)
  ultimately show ?thesis by (rule image_eqI)
qed

lemma set_activeProjects:
  "A \<in> set (activeProjects projects dt) \<longleftrightarrow>
     (\<exists>iv. map_of projects A = Some iv \<and> str_ge dt (start iv) \<and> str_le dt (end' iv))"
proof -
  have "A \<in> set (activeProjects projects dt) \<longleftrightarrow>
      A \<in> fst ` set projects \<and> checkActive projects A dt"
    by (simp add: activeProjects_def object_keys_def set_own_entries)
  moreover have "checkActive projects A dt \<longleftrightarrow>
      (\<exists>iv. map_of projects A = Some iv \<and> str_ge dt (start iv) \<and> str_le dt (end' iv))"
    by (simp add: checkActive_def split: option.splits)
  moreover have "A \<in> fst ` set projects" if "map_of projects A = Some iv" for iv
    using that map_of_eq_None_iff [of projects A] by simp
  ultimately show ?thesis by auto
qed

lemma keys_precede:
  assumes ga: "group_all a dmin dmax events = Inr (projects, datetimes)"
    and A: "A \<in> set (activeProjects projects dt)" and B: "B \<in> set (activeProjects projects dt)"
    and ord: "(array_index A \<noteq> None \<and> array_index B \<noteq> None \<and> index_value A < index_value B)
       \<or> (array_index A \<noteq> None \<and> array_index B = None)
       \<or> (array_index A = None \<and> array_index B = None
           \<and> first_index (discovery_order (forEach_elems events)) A 0
             < first_index (discovery_order (forEach_elems events)) B 0)"
  shows "first_index (activeProjects projects dt) A 0 < first_index (activeProjects projects dt) B 0"
proof -
  let ?D = "discovery_order (forEach_elems events)"
  from A B have act: "checkActive projects A dt" "checkActive projects B dt"
    and Ak: "A \<in> set (object_keys projects)" and Bk: "B \<in> set (object_keys projects)"
    by (simp_all add: activeProjects_def)
  from Ak Bk have Ain: "A \<in> set (map fst projects)" and Bin: "B \<in> set (map fst projects)"
    by (simp_all add: object_keys_def set_own_entries)
  from Ain have "projects \<noteq> []" by auto
  with group_all_wf [OF ga] have a by auto
  with ga have "fold_err (group_event True dmin dmax) ([], []) (forEach_elems events)
      = Inr (projects, datetimes)" by (simp add: group_all_def)
  from group_fold_projects [OF this]
  have keys: "map fst projects = filter (\<lambda>k. k \<noteq> ''__proto__'') ?D" by simp
  from Ain Bin have AD: "A \<in> set ?D" "A \<noteq> ''__proto__''" and BD: "B \<in> set ?D" "B \<noteq> ''__proto__''"
    unfolding keys by simp_all
  have "first_index (map fst projects) A 0 < first_index (map fst projects) B 0"
    if "first_index ?D A 0 < first_index ?D B 0"
    unfolding keys
    using first_index_filter_mono [of "\<lambda>k. k \<noteq> ''__proto__''" A B ?D 0 0] AD BD that by simp
  with ord have "(array_index A \<noteq> None \<and> array_index B \<noteq> None \<and> index_value A < index_value B)
       \<or> (array_index A \<noteq> None \<and> array_index B = None)
       \<or> (array_index A = None \<and> array_index B = None
           \<and> first_index (map fst projects) A 0 < first_index (map fst projects) B 0)"
    by blast
  from key_order [OF Ain Bin this]
  have "first_index (object_keys projects) A 0 < first_index (object_keys projects) B 0"
    by (simp only: object_keys_split)
  from first_index_filter_mono [of "\<lambda>k. checkActive projects k dt" A B "object_keys projects" 0 0,
      OF act Ak Bk this]
  show ?thesis by (simp add: activeProjects_def)
qed


subsection \<open>Sorting and assembling narratives\<close>

lemma set_insert_by: "set (insert_by cmp x ys) = insert x (set ys)"
  by (induction ys) auto

lemma sorted_insert_by:
  assumes "consistent_comparator cmp" and "sorted_wrt (\<lambda>a b. cmp a b \<le> 0) ys"
  shows "sorted_wrt (\<lambda>a b. cmp a b \<le> 0) (insert_by cmp x ys)"
  using assms(2)
proof (induction ys)
  case Nil
  then show ?case by simp
next
  case (Cons y ys)
  from assms(1) have tot: "cmp y x \<le> 0" if "\<not> cmp x y \<le> 0"
    using that unfolding consistent_comparator_def by (metis not_le order_less_imp_le)
  from assms(1) have trans: "cmp a c \<le> 0" if "cmp a b \<le> 0" "cmp b c \<le> 0" for a b c
    using that unfolding consistent_comparator_def by blast
  show ?case
  proof (cases "cmp x y \<le> 0")
    case True
    with Cons.prems trans show ?thesis by auto
  next
    case False
    with Cons tot show ?thesis by (auto simp: set_insert_by)
  qed
qed

lemma sorted_js_sort:
  "consistent_comparator cmp \<Longrightarrow> sorted_wrt (\<lambda>a b. cmp a b \<le> 0) (js_sort cmp xs)"
  unfolding js_sort_def by (induction xs) (simp_all add: sorted_insert_by)

lemma map_of_spread_narrative:
  "map_of (spread a (obj_of_narrative n)) =
     (map_of a)(''id'' \<mapsto> Str (narrative_id n), ''steps'' \<mapsto> Steps (steps n))"
  by (simp add: spread_def obj_of_narrative_def update_conv')

lemma map_of_obj_of_narrative:
  "map_of (obj_of_narrative n) f =
     (if f = ''id'' then Some (Str (narrative_id n))
      else if f = ''steps'' then Some (Steps (steps n)) else None)"
  by (simp add: obj_of_narrative_def)

lemma map_of_finish:
  "map_of (finish cmp meta key n) f =
     (if f = ''steps'' then Some (Steps (js_sort cmp (steps n)))
      else if f = ''id'' then Some (Str (narrative_id n))
      else case find (\<lambda>m. meta_id m = key) meta of
             Some m \<Rightarrow> map_of (meta_fields m) f
           | None \<Rightarrow> None)"
  by (simp add: finish_def Let_def map_of_spread_narrative map_of_obj_of_narrative obj_of_meta_def
      update_conv' split: option.splits)

lemma map_of_map_values:
  "map_of (map (\<lambda>p. (fst p, h (fst p) (snd p))) d) k = map_option (h k) (map_of d k)"
  by (induction d) auto

lemma visit_narrative_ids:
  assumes "visit_narrative b step d k = Inr d'"
    and "\<forall>k n. map_of d k = Some n \<longrightarrow> narrative_id n = k"
  shows "\<forall>k n. map_of d' k = Some n \<longrightarrow> narrative_id n = k"
  using assms
  by (auto simp: visit_narrative_def Let_def put_def update_conv' narrativeSkeleton_def
      split: if_splits option.splits)

lemma visit_event_ids:
  assumes "visit_event inset srcs d e = Inr d'"
    and "\<forall>k n. map_of d k = Some n \<longrightarrow> narrative_id n = k"
  shows "\<forall>k n. map_of d' k = Some n \<longrightarrow> narrative_id n = k"
proof -
  from assms(1) obtain ns where ns: "narratives e = Some ns"
    and f: "fold_err (visit_narrative (length ns > 0) (inset srcs e)) d ns = Inr d'"
    by (auto simp: visit_event_def Let_def split: option.splits)
  show ?thesis
    by (rule fold_err_inv [where I = "\<lambda>d. \<forall>k n. map_of d k = Some n \<longrightarrow> narrative_id n = k", OF f assms(2)])
      (rule visit_narrative_ids)
qed

lemma assemble_ids:
  assumes "assemble inset events srcs = Inr narrs"
  shows "\<forall>k n. map_of narrs k = Some n \<longrightarrow> narrative_id n = k"
  by (rule fold_err_inv [where I = "\<lambda>d. \<forall>k n. map_of d k = Some n \<longrightarrow> narrative_id n = k",
        OF assms [unfolded assemble_def]])
    (simp, rule visit_event_ids)



lemma narrative_objs_lookup:
  "narrative_objs (List.map_filter (\<lambda>n. lookup_entry d (meta_id n)) ms) =
     List.map_filter (map_of d) (map meta_id ms)"
  by (induction ms)
    (auto simp: narrative_objs_def lookup_entry_def split: option.splits)

lemma set_narrative_objs: "ob \<in> set (narrative_objs out) \<longleftrightarrow> Narrative ob \<in> set out"
  by (induction out) (auto simp: narrative_objs_def split: entry.splits)

lemma set_map_filter_iff: "y \<in> set (List.map_filter f xs) \<longleftrightarrow> (\<exists>x\<in>set xs. f x = Some y)"
  by (induction xs) (auto split: option.splits)

lemma selectNarratives_unfold:
  assumes "selectNarratives inset cmp events meta srcs = Inr out"
  shows "\<exists>narrs. assemble inset events srcs = Inr narrs
     \<and> narrative_objs out =
         List.map_filter (\<lambda>k. map_option (finish cmp meta k) (map_of narrs k)) (map meta_id meta)"
proof -
  from assms obtain narrs where a: "assemble inset events srcs = Inr narrs"
    and out: "out = List.map_filter
        (\<lambda>n. lookup_entry (map (\<lambda>p. (fst p, finish cmp meta (fst p) (snd p))) narrs) (meta_id n)) meta"
    by (auto simp: selectNarratives_def Let_def split: sum.splits)
  have "map_of (map (\<lambda>p. (fst p, finish cmp meta (fst p) (snd p))) narrs)
      = (\<lambda>k. map_option (finish cmp meta k) (map_of narrs k))"
    by (rule ext) (rule map_of_map_values)
  with out have "narrative_objs out =
      List.map_filter (\<lambda>k. map_option (finish cmp meta k) (map_of narrs k)) (map meta_id meta)"
    by (simp add: narrative_objs_lookup)
  with a show ?thesis by blast
qed

lemma output_narrative:
  assumes "selectNarratives inset cmp events meta srcs = Inr out"
    and "ob \<in> set (narrative_objs out)"
  shows "\<exists>narrs n m. assemble inset events srcs = Inr narrs
     \<and> map_of narrs (narrative_id n) = Some n
     \<and> find (\<lambda>m. meta_id m = narrative_id n) meta = Some m
     \<and> ob = finish cmp meta (narrative_id n) n"
proof -
  from selectNarratives_unfold [OF assms(1)] obtain narrs
    where a: "assemble inset events srcs = Inr narrs"
      and objs: "narrative_objs out =
         List.map_filter (\<lambda>k. map_option (finish cmp meta k) (map_of narrs k)) (map meta_id meta)"
    by blast
  from assms(2) objs obtain m0 n where m0: "m0 \<in> set meta"
    and n: "map_of narrs (meta_id m0) = Some n" and ob: "ob = finish cmp meta (meta_id m0) n"
    by (auto simp: set_map_filter_iff)
  from assemble_ids [OF a] n have nid: "narrative_id n = meta_id m0" by blast
  from m0 have "find (\<lambda>m. meta_id m = meta_id m0) meta \<noteq> None" by (auto simp: find_None_iff)
  then obtain m where "find (\<lambda>m. meta_id m = meta_id m0) meta = Some m" by blast
  with n ob nid have "map_of narrs (narrative_id n) = Some n
     \<and> find (\<lambda>m. meta_id m = narrative_id n) meta = Some m
     \<and> ob = finish cmp meta (narrative_id n) n" by simp
  with a show ?thesis by blast
qed

lemma output_ids:
  assumes "\<forall>k n. map_of narrs k = Some n \<longrightarrow> narrative_id n = k"
  shows "map (\<lambda>ob. map_of ob ''id'')
       (List.map_filter (\<lambda>k. map_option (finish cmp meta k) (map_of narrs k)) ks)
     = map (\<lambda>k. Some (Str k)) (filter (has_own narrs) ks)"
proof (induction ks)
  case Nil
  then show ?case by simp
next
  case (Cons k ks)
  show ?case
  proof (cases "map_of narrs k")
    case None
    with Cons show ?thesis by (simp add: has_own_def)
  next
    case (Some n)
    with assms have "narrative_id n = k" by blast
    with Some Cons show ?thesis by (simp add: has_own_def map_of_finish)
  qed
qed

lemma selectNarratives_entries:
  assumes "selectNarratives inset cmp events meta srcs = Inr out"
    and "x \<in> set out"
  shows "(\<exists>ob. x = Narrative ob) \<or> (\<exists>m\<in>set meta. inherited (meta_id m) \<and> x = Inherited (meta_id m))"
proof -
  from assms(1) obtain d where
    out: "out = List.map_filter (\<lambda>n. lookup_entry d (meta_id n)) meta"
    by (auto simp: selectNarratives_def Let_def split: sum.splits)
  with assms(2) obtain m where "m \<in> set meta" and "lookup_entry d (meta_id m) = Some x"
    by (auto simp: set_map_filter_iff)
  then show ?thesis
    by (auto simp: lookup_entry_def split: option.splits if_splits)
qed

lemma only_narratives:
  "\<forall>x\<in>set out. \<exists>ob. x = Narrative ob \<Longrightarrow> out = map Narrative (narrative_objs out)"
  by (induction out) (auto simp: narrative_objs_def)

subsection \<open>Grouping by location\<close>

lemma sum_insort_key: "sum_list (map f (insort_key h x xs)) = f x + sum_list (map f xs)"
  for f :: "'a \<Rightarrow> nat"
  by (induction xs) auto

lemma sum_sort_key: "sum_list (map f (sort_key h xs)) = sum_list (map f xs)"
  for f :: "'a \<Rightarrow> nat"
  by (induction xs) (auto simp: sum_insort_key)

lemma sum_filter_split:
  "sum_list (map f (filter P xs)) + sum_list (map f (filter (\<lambda>x. \<not> P x) xs)) = sum_list (map f xs)"
  for f :: "'a \<Rightarrow> nat"
  by (induction xs) auto

lemma sum_own_entries: "sum_list (map f (own_entries d)) = sum_list (map f d)"
  for f :: "string \<times> 'v \<Rightarrow> nat"
  using sum_filter_split [of f "\<lambda>p. array_index (fst p) \<noteq> None" d]
  by (simp add: own_entries_def sum_sort_key)

lemma update_present:
  "distinct (map fst d) \<Longrightarrow> k \<in> fst ` set d \<Longrightarrow>
   AList.update k v d = map (\<lambda>p. if fst p = k then (k, v) else p) d"
proof (induction d)
  case Nil
  then show ?case by simp
next
  case (Cons p ps)
  show ?case
  proof (cases "fst p = k")
    case True
    with Cons.prems have "k \<notin> fst ` set ps" by simp
    then have "\<forall>q \<in> set ps. fst q \<noteq> k" by force
    then have "map (\<lambda>p. if fst p = k then (k, v) else p) ps = ps" by (simp add: map_idI)
    with True show ?thesis by (cases p) simp
  next
    case False
    with Cons.prems have "distinct (map fst ps)" "k \<in> fst ` set ps" by auto
    from Cons.IH [OF this] False show ?thesis by (cases p) simp
  qed
qed

lemma map_fst_replace: "map fst (map (\<lambda>p. if fst p = k then (k, v) else p) d) = map fst d"
  by (induction d) auto

lemma sum_replace_one:
  fixes f :: "'k \<times> 'v \<Rightarrow> nat"
  assumes "distinct (map fst d)" and "(k, g) \<in> set d"
  shows "sum_list (map f (map (\<lambda>p. if fst p = k then (k, g') else p) d)) + f (k, g)
       = sum_list (map f d) + f (k, g')"
  using assms
proof (induction d)
  case Nil
  then show ?case by simp
next
  case (Cons p ps)
  show ?case
  proof (cases "fst p = k")
    case True
    with Cons.prems have "k \<notin> fst ` set ps" by simp
    then have no: "\<forall>q \<in> set ps. fst q \<noteq> k" by force
    then have same: "map (\<lambda>p. if fst p = k then (k, g') else p) ps = ps" by (simp add: map_idI)
    from no Cons.prems(2) True have "p = (k, g)" by force
    with same show ?thesis by simp
  next
    case False
    with Cons.prems have "(k, g) \<in> set ps" "distinct (map fst ps)" by auto
    from Cons.IH [OF this(2,1)] False show ?thesis by simp
  qed
qed

lemma locate_step:
  assumes ni: "\<not> inherited (location_key e)"
    and d: "distinct (map fst d)"
    and keyed: "\<forall>p\<in>set d. \<forall>x\<in>set (loc_events (snd p)). location_key x = fst p"
  shows "\<exists>d'. locate d e = Inr d' \<and> distinct (map fst d')
       \<and> (\<forall>p\<in>set d'. \<forall>x\<in>set (loc_events (snd p)). location_key x = fst p)
       \<and> sum_list (map (\<lambda>p. length (loc_events (snd p))) d')
           = sum_list (map (\<lambda>p. length (loc_events (snd p))) d) + 1
       \<and> (\<exists>p\<in>set d'. e \<in> set (loc_events (snd p)))
       \<and> (\<forall>p\<in>set d. \<exists>p'\<in>set d'. set (loc_events (snd p)) \<subseteq> set (loc_events (snd p')))"
proof (cases "map_of d (location_key e)")
  case None
  let ?g = "\<lparr>loc_label = location e, loc_events = [e], loc_latitude = latitude e,
             loc_longitude = longitude e\<rparr>"
  let ?d' = "d @ [(location_key e, ?g)]"
  from None have fresh: "location_key e \<notin> fst ` set d" by (simp add: map_of_eq_None_iff)
  from ni have "location_key e \<noteq> ''__proto__''" by (auto simp: inherited_def)
  with None ni update_fresh [OF fresh, of ?g] have loc: "locate d e = Inr ?d'"
    by (simp add: locate_def Let_def truthy_at_def has_own_def put_def)
  from fresh d have dist: "distinct (map fst ?d')" by simp
  from keyed have kd: "\<forall>p\<in>set ?d'. \<forall>x\<in>set (loc_events (snd p)). location_key x = fst p"
    by auto
  have total: "sum_list (map (\<lambda>p. length (loc_events (snd p))) ?d')
           = sum_list (map (\<lambda>p. length (loc_events (snd p))) d) + 1" by simp
  have ex: "\<exists>p\<in>set ?d'. e \<in> set (loc_events (snd p))" by simp
  have mono: "\<forall>p\<in>set d. \<exists>p'\<in>set ?d'. set (loc_events (snd p)) \<subseteq> set (loc_events (snd p'))"
    by auto
  show ?thesis
  proof (intro exI conjI)
    show "locate d e = Inr ?d'" by (rule loc)
  qed (rule dist kd total ex mono)+
next
  case (Some g)
  let ?k = "location_key e"
  let ?g = "g\<lparr>loc_events := loc_events g @ [e]\<rparr>"
  let ?d' = "map (\<lambda>p. if fst p = ?k then (?k, ?g) else p) d"
  from Some have mem: "(?k, g) \<in> set d" by (rule map_of_SomeD)
  then have own: "?k \<in> fst ` set d" by force
  from update_present [OF d own] Some have loc: "locate d e = Inr ?d'"
    by (simp add: locate_def Let_def truthy_at_def has_own_def)
  from d have dist: "distinct (map fst ?d')" by (simp only: map_fst_replace)
  from keyed mem have kg: "\<forall>y\<in>set (loc_events g). location_key y = ?k" by force
  have kd: "\<forall>p\<in>set ?d'. \<forall>x\<in>set (loc_events (snd p)). location_key x = fst p"
  proof (intro ballI)
    fix p x
    assume p: "p \<in> set ?d'" and x: "x \<in> set (loc_events (snd p))"
    from p have "p \<in> (\<lambda>q. if fst q = ?k then (?k, ?g) else q) ` set d" by simp
    then obtain q where q: "q \<in> set d" and pq: "p = (if fst q = ?k then (?k, ?g) else q)"
      by (rule imageE)
    show "location_key x = fst p"
    proof (cases "fst q = ?k")
      case True
      with pq have pk: "p = (?k, ?g)" by simp
      with x have "x \<in> set (loc_events g) \<or> x = e" by auto
      with kg pk show ?thesis by auto
    next
      case False
      with pq have "p = q" by simp
      with keyed q x show ?thesis by simp
    qed
  qed
  from sum_replace_one [OF d mem, of "\<lambda>p. length (loc_events (snd p))" ?g]
  have total: "sum_list (map (\<lambda>p. length (loc_events (snd p))) ?d')
           = sum_list (map (\<lambda>p. length (loc_events (snd p))) d) + 1" by simp
  from mem have "(?k, ?g) \<in> (\<lambda>p. if fst p = ?k then (?k, ?g) else p) ` set d"
    by (intro image_eqI [of _ _ "(?k, g)"]) simp_all
  then have here: "(?k, ?g) \<in> set ?d'" by simp
  then have ex: "\<exists>p\<in>set ?d'. e \<in> set (loc_events (snd p))"
    by (rule bexI [rotated]) simp
  have mono: "\<forall>p\<in>set d. \<exists>p'\<in>set ?d'. set (loc_events (snd p)) \<subseteq> set (loc_events (snd p'))"
  proof
    fix p assume pd: "p \<in> set d"
    show "\<exists>p'\<in>set ?d'. set (loc_events (snd p)) \<subseteq> set (loc_events (snd p'))"
    proof (cases "fst p = ?k")
      case True
      from True have "(?k, snd p) = p" by (simp add: prod_eq_iff)
      with pd have "(?k, snd p) \<in> set d" by simp
      from eq_key_imp_eq_value [OF d this mem] have pg: "snd p = g" .
      from here show ?thesis by (rule bexI [rotated]) (auto simp: pg)
    next
      case False
      with pd have "p \<in> (\<lambda>p. if fst p = ?k then (?k, ?g) else p) ` set d"
        by (intro image_eqI [of _ _ p]) simp_all
      then have "p \<in> set ?d'" by simp
      then show ?thesis by (rule bexI [rotated]) simp
    qed
  qed
  show ?thesis
  proof (intro exI conjI)
    show "locate d e = Inr ?d'" by (rule loc)
  qed (rule dist kd total ex mono)+
qed

lemma locate_fold:
  assumes "\<forall>e\<in>set es. \<not> inherited (location_key e)"
    and "distinct (map fst d)"
    and "\<forall>p\<in>set d. \<forall>x\<in>set (loc_events (snd p)). location_key x = fst p"
  shows "\<exists>d'. fold_err locate d es = Inr d' \<and> distinct (map fst d')
       \<and> (\<forall>p\<in>set d'. \<forall>x\<in>set (loc_events (snd p)). location_key x = fst p)
       \<and> sum_list (map (\<lambda>p. length (loc_events (snd p))) d')
           = sum_list (map (\<lambda>p. length (loc_events (snd p))) d) + length es
       \<and> (\<forall>e\<in>set es. \<exists>p\<in>set d'. e \<in> set (loc_events (snd p)))
       \<and> (\<forall>p\<in>set d. \<exists>p'\<in>set d'. set (loc_events (snd p)) \<subseteq> set (loc_events (snd p')))"
  using assms
proof (induction es arbitrary: d)
  case Nil
  show ?case
  proof (intro exI conjI)
    show "fold_err locate d [] = Inr d" by simp
    show "distinct (map fst d)" by (rule Nil.prems(2))
    show "\<forall>p\<in>set d. \<forall>x\<in>set (loc_events (snd p)). location_key x = fst p" by (rule Nil.prems(3))
    show "sum_list (map (\<lambda>p. length (loc_events (snd p))) d)
           = sum_list (map (\<lambda>p. length (loc_events (snd p))) d) + length []" by simp
    show "\<forall>e\<in>set []. \<exists>p\<in>set d. e \<in> set (loc_events (snd p))" by simp
    show "\<forall>p\<in>set d. \<exists>p'\<in>set d. set (loc_events (snd p)) \<subseteq> set (loc_events (snd p'))"
      by (intro ballI) (rule bexI, rule subset_refl)
  qed
next
  case (Cons e es)
  from Cons.prems have "\<not> inherited (location_key e)" by simp
  from locate_step [OF this Cons.prems(2,3)] obtain d1
    where s1: "locate d e = Inr d1" and d1: "distinct (map fst d1)"
      and k1: "\<forall>p\<in>set d1. \<forall>x\<in>set (loc_events (snd p)). location_key x = fst p"
      and t1: "sum_list (map (\<lambda>p. length (loc_events (snd p))) d1)
           = sum_list (map (\<lambda>p. length (loc_events (snd p))) d) + 1"
      and e1: "\<exists>p\<in>set d1. e \<in> set (loc_events (snd p))"
      and m1: "\<forall>p\<in>set d. \<exists>p'\<in>set d1. set (loc_events (snd p)) \<subseteq> set (loc_events (snd p'))"
    by (elim exE conjE) (rule that; assumption)
  from Cons.prems(1) have "\<forall>e\<in>set es. \<not> inherited (location_key e)" by simp
  from Cons.IH [OF this d1 k1] obtain d'
    where s2: "fold_err locate d1 es = Inr d'" and d2: "distinct (map fst d')"
      and k2: "\<forall>p\<in>set d'. \<forall>x\<in>set (loc_events (snd p)). location_key x = fst p"
      and t2: "sum_list (map (\<lambda>p. length (loc_events (snd p))) d')
           = sum_list (map (\<lambda>p. length (loc_events (snd p))) d1) + length es"
      and e2: "\<forall>e\<in>set es. \<exists>p\<in>set d'. e \<in> set (loc_events (snd p))"
      and m2: "\<forall>p\<in>set d1. \<exists>p'\<in>set d'. set (loc_events (snd p)) \<subseteq> set (loc_events (snd p'))"
    by (elim exE conjE) (rule that; assumption)
  from s1 s2 have f: "fold_err locate d (e # es) = Inr d'" by simp
  from t1 t2 have t: "sum_list (map (\<lambda>p. length (loc_events (snd p))) d')
           = sum_list (map (\<lambda>p. length (loc_events (snd p))) d) + length (e # es)" by simp
  have ev: "\<forall>x\<in>set (e # es). \<exists>p\<in>set d'. x \<in> set (loc_events (snd p))"
  proof
    fix x assume x: "x \<in> set (e # es)"
    show "\<exists>p\<in>set d'. x \<in> set (loc_events (snd p))"
    proof (cases "x = e")
      case True
      from e1 obtain p1 where p1: "p1 \<in> set d1" "e \<in> set (loc_events (snd p1))" by (rule bexE)
      from m2 p1(1) obtain p' where "p' \<in> set d'"
        "set (loc_events (snd p1)) \<subseteq> set (loc_events (snd p'))" by (auto elim: bexE dest: bspec)
      with p1(2) True show ?thesis by (intro bexI [of _ p']) auto
    next
      case False
      with x have "x \<in> set es" by simp
      with e2 show ?thesis by (rule bspec)
    qed
  qed
  have mono: "\<forall>p\<in>set d. \<exists>p'\<in>set d'. set (loc_events (snd p)) \<subseteq> set (loc_events (snd p'))"
  proof
    fix p assume "p \<in> set d"
    with m1 obtain p1 where p1: "p1 \<in> set d1"
      "set (loc_events (snd p)) \<subseteq> set (loc_events (snd p1))" by (auto elim: bexE dest: bspec)
    from m2 p1(1) obtain p' where "p' \<in> set d'"
      "set (loc_events (snd p1)) \<subseteq> set (loc_events (snd p'))" by (auto elim: bexE dest: bspec)
    with p1(2) show "\<exists>p'\<in>set d'. set (loc_events (snd p)) \<subseteq> set (loc_events (snd p'))"
      by (intro bexI [of _ p']) auto
  qed
  show ?case
  proof (intro exI conjI)
    show "fold_err locate d (e # es) = Inr d'" by (rule f)
  qed (rule d2 k2 t ev mono)+
qed


subsection \<open>The scan for located events\<close>

lemma scan_result:
  assumes "distinct hasLocated" and "\<forall>k\<in>set hasLocated. \<not> inherited k"
  shows "distinct (scan n hasLocated es)
       \<and> set hasLocated \<subseteq> set (scan n hasLocated es)
       \<and> set (scan n hasLocated es)
           \<subseteq> set hasLocated \<union> {category e |e. e \<in> set es \<and> isLocated e \<and> \<not> inherited (category e)}
       \<and> (length (scan n hasLocated es) = n
           \<or> set (scan n hasLocated es)
               = set hasLocated \<union> {category e |e. e \<in> set es \<and> isLocated e \<and> \<not> inherited (category e)})"
  using assms
proof (induction n hasLocated es rule: scan.induct)
  case (1 n hasLocated)
  then show ?case by simp
next
  case (2 n hasLocated event rest)
  show ?case
  proof (cases "length hasLocated = n")
    case True
    with "2.prems" show ?thesis by auto
  next
    case notfull: False
    show ?thesis
    proof (cases "category event \<in> set hasLocated \<or> inherited (category event)")
      case True
      with notfull "2.IH"(1) "2.prems"
      have IH: "distinct (scan n hasLocated rest)
       \<and> set hasLocated \<subseteq> set (scan n hasLocated rest)
       \<and> set (scan n hasLocated rest)
           \<subseteq> set hasLocated \<union> {category e |e. e \<in> set rest \<and> isLocated e \<and> \<not> inherited (category e)}
       \<and> (length (scan n hasLocated rest) = n
           \<or> set (scan n hasLocated rest)
               = set hasLocated \<union> {category e |e. e \<in> set rest \<and> isLocated e \<and> \<not> inherited (category e)})"
        by blast
      from True notfull have eq: "scan n hasLocated (event # rest) = scan n hasLocated rest" by simp
      from True have same: "set hasLocated \<union> {category e |e. e \<in> set (event # rest) \<and> isLocated e \<and> \<not> inherited (category e)}
          = set hasLocated \<union> {category e |e. e \<in> set rest \<and> isLocated e \<and> \<not> inherited (category e)}"
        by auto
      from IH show ?thesis unfolding eq same .
    next
      case fresh: False
      show ?thesis
      proof (cases "isLocated event")
        case True
        from fresh "2.prems" have pre: "distinct (hasLocated @ [category event])"
          "\<forall>k\<in>set (hasLocated @ [category event]). \<not> inherited k" by auto
        from "2.IH"(2) [OF notfull fresh True pre]
        have IH: "distinct (scan n (hasLocated @ [category event]) rest)
       \<and> set (hasLocated @ [category event]) \<subseteq> set (scan n (hasLocated @ [category event]) rest)
       \<and> set (scan n (hasLocated @ [category event]) rest)
           \<subseteq> set (hasLocated @ [category event]) \<union> {category e |e. e \<in> set rest \<and> isLocated e \<and> \<not> inherited (category e)}
       \<and> (length (scan n (hasLocated @ [category event]) rest) = n
           \<or> set (scan n (hasLocated @ [category event]) rest)
               = set (hasLocated @ [category event]) \<union> {category e |e. e \<in> set rest \<and> isLocated e \<and> \<not> inherited (category e)})" .
        from True fresh notfull
        have eq: "scan n hasLocated (event # rest) = scan n (hasLocated @ [category event]) rest" by simp
        from True fresh
        have same: "set hasLocated \<union> {category e |e. e \<in> set (event # rest) \<and> isLocated e \<and> \<not> inherited (category e)}
          = set (hasLocated @ [category event]) \<union> {category e |e. e \<in> set rest \<and> isLocated e \<and> \<not> inherited (category e)}"
          by auto
        from IH show ?thesis unfolding eq same by auto
      next
        case False
        from "2.IH"(3) [OF notfull fresh False "2.prems"]
        have IH: "distinct (scan n hasLocated rest)
       \<and> set hasLocated \<subseteq> set (scan n hasLocated rest)
       \<and> set (scan n hasLocated rest)
           \<subseteq> set hasLocated \<union> {category e |e. e \<in> set rest \<and> isLocated e \<and> \<not> inherited (category e)}
       \<and> (length (scan n hasLocated rest) = n
           \<or> set (scan n hasLocated rest)
               = set hasLocated \<union> {category e |e. e \<in> set rest \<and> isLocated e \<and> \<not> inherited (category e)})" .
        from False fresh notfull have eq: "scan n hasLocated (event # rest) = scan n hasLocated rest" by simp
        from False have same: "set hasLocated \<union> {category e |e. e \<in> set (event # rest) \<and> isLocated e \<and> \<not> inherited (category e)}
          = set hasLocated \<union> {category e |e. e \<in> set rest \<and> isLocated e \<and> \<not> inherited (category e)}"
          by auto
        from IH show ?thesis unfolding eq same .
      qed
    qed
  qed
qed

lemma full_scan_covers:
  assumes "distinct has" and "set has \<subseteq> category' ` set cats" and "length has = length cats"
  shows "set has = category' ` set cats"
proof -
  have "card (category' ` set cats) \<le> length cats"
    by (metis card_image_le card_length le_trans List.finite_set)
  moreover from assms(1,3) have "card (set has) = length cats" by (simp add: distinct_card)
  ultimately have "card (category' ` set cats) \<le> card (set has)" by simp
  with assms(2) show ?thesis by (simp add: card_seteq)
qed


subsection \<open>When the selectors return\<close>

text \<open>
  A loop whose callback returns on every element, from every state that satisfies an
  invariant, returns.
\<close>

lemma fold_err_total:
  assumes "I s"
    and "\<And>s x. I s \<Longrightarrow> x \<in> set xs \<Longrightarrow> \<exists>s'. f s x = Inr s' \<and> I s'"
  shows "\<exists>t. fold_err f s xs = Inr t \<and> I t"
  using assms
proof (induction xs arbitrary: s)
  case Nil
  then show ?case by simp
next
  case (Cons x xs)
  from Cons.prems(2) [OF Cons.prems(1), of x] obtain s' where s': "f s x = Inr s'" "I s'" by auto
  have "\<exists>s2. f s1 y = Inr s2 \<and> I s2" if "I s1" "y \<in> set xs" for s1 y
    using Cons.prems(2) [OF that(1), of y] that(2) by simp
  from Cons.IH [OF s'(2) this] s'(1) show ?case by simp
qed

text \<open>
  \<open>selectNarratives\<close> returns when every event carries a \<^verbatim>\<open>narratives\<close> array none of whose
  names is a member of \<^verbatim>\<open>Object.prototype\<close>.
\<close>

lemma visit_narrative_returns:
  "\<not> inherited k \<Longrightarrow> \<exists>d'. visit_narrative b step d k = Inr d'"
  by (auto simp: visit_narrative_def Let_def truthy_at_def has_own_def put_def update_conv'
      inherited_def split: option.splits)

lemma visit_event_returns:
  assumes "narratives e = Some ns" and "\<forall>k\<in>set ns. \<not> inherited k"
  shows "\<exists>d'. visit_event inset srcs d e = Inr d'"
proof -
  have "\<exists>t. fold_err (visit_narrative (length ns > 0) (inset srcs e)) d ns = Inr t \<and> True"
  proof (rule fold_err_total)
    fix s x assume "x \<in> set ns"
    with assms(2) have "\<not> inherited x" by simp
    from visit_narrative_returns [OF this]
    show "\<exists>s'. visit_narrative (length ns > 0) (inset srcs e) s x = Inr s' \<and> True" by simp
  qed simp
  with assms(1) show ?thesis by (simp add: visit_event_def)
qed

lemma selectNarratives_returns:
  assumes "\<forall>e\<in>set events. \<exists>ns. narratives e = Some ns \<and> (\<forall>k\<in>set ns. \<not> inherited k)"
  shows "\<exists>out. selectNarratives inset cmp events meta srcs = Inr out"
proof -
  have "\<exists>t. fold_err (visit_event inset srcs) [] events = Inr t \<and> True"
  proof (rule fold_err_total)
    fix s x assume "x \<in> set events"
    with assms obtain ns where "narratives x = Some ns" "\<forall>k\<in>set ns. \<not> inherited k" by blast
    from visit_event_returns [OF this] show "\<exists>s'. visit_event inset srcs s x = Inr s' \<and> True"
      by simp
  qed simp
  then show ?thesis by (auto simp: selectNarratives_def assemble_def Let_def)
qed

text \<open>
  \<open>selectDatetimes\<close> returns when no timestamp and no first tag is the string
  \<^verbatim>\<open>hasOwnProperty\<close> (an own property of that name would shadow the method the selector
  calls) and, with the associative-by-tag capability on, every event carries a
  \<^verbatim>\<open>tags\<close> array.
\<close>

lemma track_project_returns:
  assumes "\<not> has_own projects ''hasOwnProperty''"
    and "a \<longrightarrow> (\<exists>ts. tags e = Some ts \<and> (ts \<noteq> [] \<longrightarrow> ts ! 0 \<noteq> ''hasOwnProperty''))"
  shows "\<exists>ev projects'. track_project a dmin dmax projects e = Inr (ev, projects')
     \<and> base ev = e \<and> \<not> has_own projects' ''hasOwnProperty''"
proof (cases a)
  case False
  with assms(1) show ?thesis by (simp add: track_project_def)
next
  case True
  with assms(2) obtain ts where ts: "tags e = Some ts" "ts \<noteq> [] \<longrightarrow> ts ! 0 \<noteq> ''hasOwnProperty''"
    by blast
  show ?thesis
  proof (cases ts)
    case Nil
    with True ts assms(1) show ?thesis by (simp add: track_project_def)
  next
    case (Cons t rest)
    with ts have t: "t \<noteq> ''hasOwnProperty''" by simp
    with True ts(1) Cons assms(1) show ?thesis
      by (auto simp: track_project_def Let_def hasOwnProperty_def has_own_def put_def
          update_conv' map_of_map_entry split: bool.splits)
  qed
qed

lemma bucket_returns:
  assumes "\<not> has_own datetimes ''hasOwnProperty''" and "timestamp (base ev) \<noteq> ''hasOwnProperty''"
  shows "\<exists>d'. bucket datetimes ev = Inr d' \<and> \<not> has_own d' ''hasOwnProperty''"
  using assms
  by (auto simp: bucket_def Let_def hasOwnProperty_def has_own_def put_def
      update_conv' map_of_map_entry split: bool.splits)

lemma selectDatetimes_returns:
  assumes "\<forall>e\<in>set (forEach_elems events). timestamp e \<noteq> ''hasOwnProperty''
      \<and> (a \<longrightarrow> (\<exists>ts. tags e = Some ts \<and> (ts \<noteq> [] \<longrightarrow> ts ! 0 \<noteq> ''hasOwnProperty'')))"
  shows "\<exists>out. selectDatetimes a R dmin dmax dateOf events = Inr out"
proof -
  let ?I = "\<lambda>st. \<not> has_own (fst st) ''hasOwnProperty'' \<and> \<not> has_own (snd st) ''hasOwnProperty''"
  have step: "\<exists>s'. group_event a dmin dmax st x = Inr s' \<and> ?I s'"
    if I: "?I st" and x: "x \<in> set (forEach_elems events)" for st x
  proof -
    from x assms have ts: "timestamp x \<noteq> ''hasOwnProperty''"
      and tg: "a \<longrightarrow> (\<exists>ts. tags x = Some ts \<and> (ts \<noteq> [] \<longrightarrow> ts ! 0 \<noteq> ''hasOwnProperty''))"
      by auto
    from I have "\<not> has_own (fst st) ''hasOwnProperty''" by simp
    from track_project_returns [OF this tg, of dmin dmax] obtain ev projects'
      where tp: "track_project a dmin dmax (fst st) x = Inr (ev, projects')"
        and b: "base ev = x" and p: "\<not> has_own projects' ''hasOwnProperty''" by blast
    from I have "\<not> has_own (snd st) ''hasOwnProperty''" by simp
    from bucket_returns [OF this, of ev] ts b obtain d'
      where bk: "bucket (snd st) ev = Inr d'" and d: "\<not> has_own d' ''hasOwnProperty''" by auto
    from tp bk p d show ?thesis
      by (simp add: group_event_def)
  qed
  have "\<exists>t. fold_err (group_event a dmin dmax) ([], []) (forEach_elems events) = Inr t \<and> ?I t"
  proof (rule fold_err_total)
    show "?I ([], [])" by (simp add: has_own_def)
  qed (rule step)
  then show ?thesis
    by (auto simp: selectDatetimes_def group_all_def Let_def split: prod.splits)
qed


subsection \<open>Evaluation of the selectors on concrete inputs\<close>

lemmas dt_eval = selectDatetimes_def group_all_def group_event_def track_project_def bucket_def
  forEach_elems_def sample_event_def hasOwnProperty_def has_own_def put_def assign_lanes_def
  with_offsets_def activeProjects_def checkActive_def indexOf_def object_keys_def object_values_def
  own_entries_def index_value_def array_index_def digit_def decimal_def str_min_def str_max_def
  str_ge_def str_le_def iso_number_def Let_def

lemmas nar_eval = selectNarratives_def assemble_def visit_event_def visit_narrative_def
  truthy_at_def has_own_def inherited_def put_def narrativeSkeleton_def finish_def js_sort_def
  spread_def obj_of_meta_def obj_of_narrative_def lookup_entry_def narrated_event_def
  sample_event_def by_timestamp_def no_sources_def iso_number_def decimal_def digit_def Let_def

section \<open>The event filter\<close>

text \<open>
  Claim C10. When two or more events that satisfy the three filter criteria share an id
  \<open>k\<close>, the result of \<open>selectEvents\<close> has exactly one entry under \<open>k\<close>, and that entry is
  the last such event in input order (\<open>ms\<close> lists the retained events of id \<open>k\<close> in input
  order).
\<close>

theorem selectEvents_last_wins:
  assumes "ms = filter (\<lambda>e. id' e = k \<and> retained R aT aC tr e) events"
    and "2 \<le> length ms"
  shows "map_of (selectEvents R events aT aC tr) k = Some (last ms)
       \<and> length (filter (\<lambda>p. fst p = k) (selectEvents R events aT aC tr)) = 1"
proof -
  from assms(2) obtain m ms' where ms: "ms = m # ms'" by (cases ms) auto
  from assms(1) ms have "filter (\<lambda>e. id' e = k \<and> retained R aT aC tr e) events = m # ms'"
    by simp
  then have look: "map_of (selectEvents R events aT aC tr) k = Some (last ms)"
    by (simp add: selectEvents_lookup ms)
  from filter_key_single [OF selectEvents_distinct look] show ?thesis
    using look by simp
qed

theorem selectEvents_last_wins_witness:
  "map_of (selectEvents between
       [sample_event 1 ''2020-01-01'' ''c1'' [''x''], sample_event 1 ''2020-03-01'' ''c1'' [''y'']]
       [] [] (''2020-01-01'', ''2020-12-31'')) 1
     = Some (sample_event 1 ''2020-03-01'' ''c1'' [''y''])
   \<and> length (filter (\<lambda>p. fst p = 1) (selectEvents between
       [sample_event 1 ''2020-01-01'' ''c1'' [''x''], sample_event 1 ''2020-03-01'' ''c1'' [''y'']]
       [] [] (''2020-01-01'', ''2020-12-31''))) = 1"
  using selectEvents_last_wins [of
      "[sample_event 1 ''2020-01-01'' ''c1'' [''x''], sample_event 1 ''2020-03-01'' ''c1'' [''y'']]"
      1 between "[]" "[]" "(''2020-01-01'', ''2020-12-31'')"
      "[sample_event 1 ''2020-01-01'' ''c1'' [''x''], sample_event 1 ''2020-03-01'' ''c1'' [''y'']]"]
  by (simp add: retained_def between_def str_ge_def str_le_def sample_event_def)

text \<open>
  Claim C1, as the code has it. The result is keyed by id, so of the events that satisfy
  the criteria and share an id only the last is kept: an event \<open>E\<close> appears in the result
  of \<open>selectEvents\<close> if and only if it is in the collection, its time is in the range
  (by the time-range helper), the list of active tags is empty or one of the tags of \<open>E\<close>
  is in it, the list of active categories is empty or the category of \<open>E\<close> is in it, and
  \<open>E\<close> is the last event in input order among the events of its id that satisfy these
  three criteria. For a collection whose ids are distinct the last condition always holds.
\<close>

theorem selectEvents_appears_iff:
  "E \<in> snd ` set (selectEvents isTimeRangedIn events activeTags activeCategories timeRange) \<longleftrightarrow>
     E \<in> set events
     \<and> isTimeRangedIn E timeRange
     \<and> (activeTags = [] \<or> (\<exists>ts. tags E = Some ts \<and> set ts \<inter> set activeTags \<noteq> {}))
     \<and> (activeCategories = [] \<or> category E \<in> set activeCategories)
     \<and> last (filter (\<lambda>e. id' e = id' E
                \<and> isTimeRangedIn e timeRange
                \<and> (activeTags = [] \<or> (\<exists>ts. tags e = Some ts \<and> set ts \<inter> set activeTags \<noteq> {}))
                \<and> (activeCategories = [] \<or> category e \<in> set activeCategories)) events) = E"
  by (simp only: selectEvents_member retained_iff conj_assoc)

text \<open>
  With the tag \<open>y\<close> and the category \<open>c1\<close> active and the year 2020 as range: the second
  event of id 1 is in the result; the event of the category \<open>c2\<close>, the event with the tag
  \<open>x\<close> only and the event of 2021 are not.
\<close>

theorem selectEvents_appears_iff_witness:
  "sample_event 1 ''2020-03-01'' ''c1'' [''y'', ''z'']
     \<in> snd ` set (selectEvents between
       [sample_event 1 ''2020-01-01'' ''c1'' [''y''], sample_event 1 ''2020-03-01'' ''c1'' [''y'', ''z''],
        sample_event 2 ''2020-02-01'' ''c2'' [''y''], sample_event 3 ''2020-02-01'' ''c1'' [''x''],
        sample_event 4 ''2021-05-01'' ''c1'' [''y'']]
       [''y''] [''c1''] (''2020-01-01'', ''2020-12-31''))
   \<and> sample_event 2 ''2020-02-01'' ''c2'' [''y'']
     \<notin> snd ` set (selectEvents between
       [sample_event 1 ''2020-01-01'' ''c1'' [''y''], sample_event 1 ''2020-03-01'' ''c1'' [''y'', ''z''],
        sample_event 2 ''2020-02-01'' ''c2'' [''y''], sample_event 3 ''2020-02-01'' ''c1'' [''x''],
        sample_event 4 ''2021-05-01'' ''c1'' [''y'']]
       [''y''] [''c1''] (''2020-01-01'', ''2020-12-31''))
   \<and> sample_event 3 ''2020-02-01'' ''c1'' [''x'']
     \<notin> snd ` set (selectEvents between
       [sample_event 1 ''2020-01-01'' ''c1'' [''y''], sample_event 1 ''2020-03-01'' ''c1'' [''y'', ''z''],
        sample_event 2 ''2020-02-01'' ''c2'' [''y''], sample_event 3 ''2020-02-01'' ''c1'' [''x''],
        sample_event 4 ''2021-05-01'' ''c1'' [''y'']]
       [''y''] [''c1''] (''2020-01-01'', ''2020-12-31''))
   \<and> sample_event 4 ''2021-05-01'' ''c1'' [''y'']
     \<notin> snd ` set (selectEvents between
       [sample_event 1 ''2020-01-01'' ''c1'' [''y''], sample_event 1 ''2020-03-01'' ''c1'' [''y'', ''z''],
        sample_event 2 ''2020-02-01'' ''c2'' [''y''], sample_event 3 ''2020-02-01'' ''c1'' [''x''],
        sample_event 4 ''2021-05-01'' ''c1'' [''y'']]
       [''y''] [''c1''] (''2020-01-01'', ''2020-12-31''))"
proof -
  let ?events = "[sample_event 1 ''2020-01-01'' ''c1'' [''y''], sample_event 1 ''2020-03-01'' ''c1'' [''y'', ''z''],
        sample_event 2 ''2020-02-01'' ''c2'' [''y''], sample_event 3 ''2020-02-01'' ''c1'' [''x''],
        sample_event 4 ''2021-05-01'' ''c1'' [''y'']]"
  let ?range = "(''2020-01-01'', ''2020-12-31'')"
  have "sample_event 1 ''2020-03-01'' ''c1'' [''y'', ''z'']
      \<in> snd ` set (selectEvents between ?events [''y''] [''c1''] ?range)"
    unfolding selectEvents_appears_iff [of "sample_event 1 ''2020-03-01'' ''c1'' [''y'', ''z'']" between
        ?events "[''y'']" "[''c1'']" ?range]
    by (simp add: between_def str_ge_def str_le_def sample_event_def)
  moreover have "sample_event 2 ''2020-02-01'' ''c2'' [''y'']
      \<notin> snd ` set (selectEvents between ?events [''y''] [''c1''] ?range)"
    unfolding selectEvents_appears_iff [of "sample_event 2 ''2020-02-01'' ''c2'' [''y'']" between
        ?events "[''y'']" "[''c1'']" ?range]
    by (simp add: sample_event_def)
  moreover have "sample_event 3 ''2020-02-01'' ''c1'' [''x'']
      \<notin> snd ` set (selectEvents between ?events [''y''] [''c1''] ?range)"
    unfolding selectEvents_appears_iff [of "sample_event 3 ''2020-02-01'' ''c1'' [''x'']" between
        ?events "[''y'']" "[''c1'']" ?range]
    by (simp add: sample_event_def)
  moreover have "sample_event 4 ''2021-05-01'' ''c1'' [''y'']
      \<notin> snd ` set (selectEvents between ?events [''y''] [''c1''] ?range)"
    unfolding selectEvents_appears_iff [of "sample_event 4 ''2021-05-01'' ''c1'' [''y'']" between
        ?events "[''y'']" "[''c1'']" ?range]
    by (simp add: between_def str_ge_def str_le_def sample_event_def)
  ultimately show ?thesis by simp
qed

text \<open>
  The equivalence without the last condition fails: of two events of id 1 that both
  satisfy the three criteria, the first is in the collection, yet it does not appear in
  the result.
\<close>

theorem selectEvents_overwritten_counterexample:
  "sample_event 1 ''2020-01-01'' ''c1'' [''y'']
     \<in> set [sample_event 1 ''2020-01-01'' ''c1'' [''y''], sample_event 1 ''2020-03-01'' ''c1'' [''y'', ''z'']]
   \<and> between (sample_event 1 ''2020-01-01'' ''c1'' [''y'']) (''2020-01-01'', ''2020-12-31'')
   \<and> tags (sample_event 1 ''2020-01-01'' ''c1'' [''y'']) = Some [''y'']
   \<and> ''y'' \<in> set [''y''] \<inter> set [''y'']
   \<and> category (sample_event 1 ''2020-01-01'' ''c1'' [''y'']) \<in> set [''c1'']
   \<and> sample_event 1 ''2020-01-01'' ''c1'' [''y'']
     \<notin> snd ` set (selectEvents between
       [sample_event 1 ''2020-01-01'' ''c1'' [''y''], sample_event 1 ''2020-03-01'' ''c1'' [''y'', ''z'']]
       [''y''] [''c1''] (''2020-01-01'', ''2020-12-31''))"
  by (simp add: selectEvents_def retained_def between_def str_ge_def str_le_def sample_event_def)

section \<open>The gated accessors\<close>

text \<open>
  Claim C9. When its capability flag is off, a gated accessor returns an empty container
  of its shape, whatever the state tree holds: \<open>getSources\<close> the empty mapping,
  \<open>getSites\<close> the empty sequence, \<open>getShapes\<close> the empty sequence.
\<close>

theorem gated_accessors_empty:
  "(\<not> USE_SOURCES env \<longrightarrow> getSources env st = Map.empty)
   \<and> (\<not> USE_SITES env \<longrightarrow> getSites env st = [])
   \<and> (\<not> USE_SHAPES env \<longrightarrow> getShapes env st = [])"
  by (simp add: getSources_def getSites_def getShapes_def)

theorem gated_accessors_empty_witness:
  "getSources \<lparr>USE_SITES = False, USE_SOURCES = False, USE_SHAPES = False, ASSOCIATIVE_EVENTS_BY_TAG = False\<rparr>
      \<lparr>domain = \<lparr>sites = [\<lparr>site_name = ''s1'', enabled = Some 1\<rparr>], sources = [''src1'' \<mapsto> ''a source''], shapes = [''a shape'']\<rparr>\<rparr>
     = Map.empty
   \<and> getSites \<lparr>USE_SITES = False, USE_SOURCES = False, USE_SHAPES = False, ASSOCIATIVE_EVENTS_BY_TAG = False\<rparr>
      \<lparr>domain = \<lparr>sites = [\<lparr>site_name = ''s1'', enabled = Some 1\<rparr>], sources = [''src1'' \<mapsto> ''a source''], shapes = [''a shape'']\<rparr>\<rparr>
     = []
   \<and> getShapes \<lparr>USE_SITES = False, USE_SOURCES = False, USE_SHAPES = False, ASSOCIATIVE_EVENTS_BY_TAG = False\<rparr>
      \<lparr>domain = \<lparr>sites = [\<lparr>site_name = ''s1'', enabled = Some 1\<rparr>], sources = [''src1'' \<mapsto> ''a source''], shapes = [''a shape'']\<rparr>\<rparr>
     = []"
  using gated_accessors_empty [of
      "\<lparr>USE_SITES = False, USE_SOURCES = False, USE_SHAPES = False, ASSOCIATIVE_EVENTS_BY_TAG = False\<rparr>"
      "\<lparr>domain = \<lparr>sites = [\<lparr>site_name = ''s1'', enabled = Some 1\<rparr>], sources = [''src1'' \<mapsto> ''a source''], shapes = [''a shape'']\<rparr>\<rparr>"]
  by simp

section \<open>Missing optional fields\<close>

text \<open>
  Claim C7 says that no selector throws on an event that lacks an optional field.
  \<open>selectEvents\<close> guards the read of \<^verbatim>\<open>event.tags\<close>; the other two selectors read
  \<^verbatim>\<open>evt.narratives.length\<close> and \<^verbatim>\<open>event.tags.length\<close> unguarded. On an event without
  the \<^verbatim>\<open>narratives\<close> property \<open>selectNarratives\<close> throws, and with the
  associative-by-tag capability on, \<open>selectDatetimes\<close> throws on an event without the
  \<^verbatim>\<open>tags\<close> property.
\<close>

theorem missing_field_throws:
  "selectNarratives (\<lambda>srcs e. e) (\<lambda>a b. iso_number (timestamp a) - iso_number (timestamp b))
      [(sample_event 0 ''2020-01-01'' ''c1'' [''x''])\<lparr>narratives := None\<rparr>] [] () = Inl TypeError
   \<and> selectDatetimes True 8 str_min str_max iso_number
      [(0, (sample_event 0 ''2020-01-01'' ''c1'' [])\<lparr>tags := None\<rparr>)] = Inl TypeError"
  by (simp add: selectNarratives_def assemble_def visit_event_def selectDatetimes_def group_all_def
      group_event_def track_project_def forEach_elems_def sample_event_def)

section \<open>Categories with located events\<close>

text \<open>
  Claim C5 says that the result of \<open>selectCategoriesWithTimeline\<close> does not depend on the
  order of the scan. The scan stops as soon as the number of categories recorded as
  located equals the number of categories, and it records the category of every located
  event, also one that is not in the category collection. With the one category \<open>a\<close> and
  two located events of categories \<open>x\<close> and \<open>a\<close>, scanning the \<open>x\<close> event first stops the
  scan before the \<open>a\<close> event is seen and the result is empty; scanning in the other order
  returns the category \<open>a\<close>.
\<close>

theorem scan_order_matters:
  "selectCategoriesWithTimeline (\<lambda>es. es) [\<lparr>category' = ''a'', description = []\<rparr>]
      [located_event 0 ''x'' ''P'', located_event 1 ''a'' ''Q''] = []
   \<and> selectCategoriesWithTimeline rev [\<lparr>category' = ''a'', description = []\<rparr>]
      [located_event 0 ''x'' ''P'', located_event 1 ''a'' ''Q''] = [\<lparr>category' = ''a'', description = []\<rparr>]"
  by (simp add: selectCategoriesWithTimeline_def located_event_def sample_event_def isLocated_def inherited_def)

text \<open>
  The order of the scan is immaterial when every located event has a category of the
  collection: for every order \<open>shuffle\<close> that visits the same events, the result is the
  categories that have a located event, in the order of the collection (a category named
  like a member of \<^verbatim>\<open>Object.prototype\<close> is always kept).
\<close>

lemma categories_order_independent:
  assumes known: "\<forall>e\<in>set events. isLocated e \<and> \<not> inherited (category e)
                    \<longrightarrow> category e \<in> category' ` set categories"
    and perm: "set (shuffle events) = set events"
  shows "selectCategoriesWithTimeline shuffle categories events =
     filter (\<lambda>cat. (\<exists>e\<in>set events. isLocated e \<and> category e = category' cat)
                    \<or> inherited (category' cat)) categories"
proof (cases "length categories = 0")
  case True
  then show ?thesis by (simp add: selectCategoriesWithTimeline_def)
next
  case False
  let ?has = "scan (length categories) [] (shuffle events)"
  let ?L = "{category e |e. e \<in> set events \<and> isLocated e \<and> \<not> inherited (category e)}"
  from scan_result [of "[]" "length categories" "shuffle events"] perm
  have d: "distinct ?has" and sub: "set ?has \<subseteq> ?L"
    and alt: "length ?has = length categories \<or> set ?has = ?L" by auto
  from known have L: "?L \<subseteq> category' ` set categories" by auto
  have "category' c \<in> set ?has \<or> inherited (category' c) \<longleftrightarrow>
        (\<exists>e\<in>set events. isLocated e \<and> category e = category' c) \<or> inherited (category' c)"
    if "c \<in> set categories" for c
  proof (rule disjE [OF alt])
    assume "length ?has = length categories"
    with d sub L have "set ?has = category' ` set categories"
      by (intro full_scan_covers) auto
    with sub that have "category' c \<in> set ?has" and "category' c \<in> ?L" by auto
    then show ?thesis by auto
  next
    assume "set ?has = ?L"
    then show ?thesis by (auto; metis)
  qed
  then have "filter (\<lambda>cat. category' cat \<in> set ?has \<or> inherited (category' cat)) categories
     = filter (\<lambda>cat. (\<exists>e\<in>set events. isLocated e \<and> category e = category' cat)
                    \<or> inherited (category' cat)) categories"
    by (intro filter_cong) auto
  with False show ?thesis by (simp add: selectCategoriesWithTimeline_def Let_def)
qed

section \<open>Location groups\<close>

text \<open>
  Claim C8 says that every filtered event appears in exactly one location group.
  \<open>selectLocations\<close> tests \<^verbatim>\<open>activeLocations[location]\<close> for truthiness where
  \<open>selectDatetimes\<close> asks \<^verbatim>\<open>hasOwnProperty\<close>: for a location named like a member of
  \<^verbatim>\<open>Object.prototype\<close> the test finds the inherited member, no group is created, and
  \<^verbatim>\<open>.events.push\<close> throws.
\<close>

theorem inherited_location_throws:
  "selectLocations [(0, located_event 0 ''c1'' ''constructor'')] = Inl TypeError"
  by (simp add: selectLocations_def forEach_elems_def locate_def location_key_def truthy_at_def
      has_own_def inherited_def located_event_def sample_event_def)

text \<open>
  When no visited event has such a location, \<open>selectLocations\<close> returns, every visited
  event is in exactly one group, and the sizes of the groups add up to the number of
  visited events.
\<close>

lemma selectLocations_complete:
  assumes "\<forall>e\<in>set (forEach_elems events). \<not> inherited (location_key e)"
  shows "\<exists>groups. selectLocations events = Inr groups
     \<and> (\<forall>e\<in>set (forEach_elems events). \<exists>!g. g \<in> set groups \<and> e \<in> set (loc_events g))
     \<and> sum_list (map (\<lambda>g. length (loc_events g)) groups) = length (forEach_elems events)"
proof -
  have base: "distinct (map fst ([] :: location_group dict))"
    "\<forall>p\<in>set ([] :: location_group dict). \<forall>x\<in>set (loc_events (snd p)). location_key x = fst p"
    by simp_all
  from locate_fold [OF assms base] obtain d
    where f: "fold_err locate [] (forEach_elems events) = Inr d" and dist: "distinct (map fst d)"
      and keyed: "\<forall>p\<in>set d. \<forall>x\<in>set (loc_events (snd p)). location_key x = fst p"
      and total: "sum_list (map (\<lambda>p. length (loc_events (snd p))) d) = length (forEach_elems events)"
      and mem: "\<forall>e\<in>set (forEach_elems events). \<exists>p\<in>set d. e \<in> set (loc_events (snd p))"
    by (elim exE conjE) (rule that; simp)
  from f have res: "selectLocations events = Inr (object_values d)"
    by (simp add: selectLocations_def)
  have groups: "set (object_values d) = snd ` set d" by (rule set_object_values)
  have one: "\<exists>!g. g \<in> set (object_values d) \<and> e \<in> set (loc_events g)"
    if e: "e \<in> set (forEach_elems events)" for e
  proof -
    from mem e obtain p where p: "p \<in> set d" "e \<in> set (loc_events (snd p))"
      by (auto elim: bexE dest: bspec)
    show ?thesis
    proof (rule ex1I [of _ "snd p"])
      from p groups show "snd p \<in> set (object_values d) \<and> e \<in> set (loc_events (snd p))" by auto
    next
      fix g assume "g \<in> set (object_values d) \<and> e \<in> set (loc_events g)"
      with groups obtain q where q: "q \<in> set d" "snd q = g" "e \<in> set (loc_events (snd q))" by auto
      from keyed p have "location_key e = fst p" by simp
      moreover from keyed q have "location_key e = fst q" by simp
      ultimately have "fst p = fst q" by simp
      then have "(fst p, snd q) = q" by (simp add: prod_eq_iff)
      with q(1) have "(fst p, snd q) \<in> set d" by simp
      moreover from p(1) have "(fst p, snd p) \<in> set d" by simp
      ultimately have "snd p = snd q" using eq_key_imp_eq_value [OF dist] by blast
      with q show "g = snd p" by simp
    qed
  qed
  have "sum_list (map (\<lambda>g. length (loc_events g)) (object_values d))
      = sum_list (map (\<lambda>p. length (loc_events (snd p))) (own_entries d))"
    by (simp add: object_values_def comp_def)
  also have "\<dots> = sum_list (map (\<lambda>p. length (loc_events (snd p))) d)" by (rule sum_own_entries)
  finally have "sum_list (map (\<lambda>g. length (loc_events g)) (object_values d)) = length (forEach_elems events)"
    using total by simp
  with res one show ?thesis by simp
qed

section \<open>Narratives\<close>

text \<open>
  Claim C3. Whenever \<open>selectNarratives\<close> returns, with \<open>narrs\<close> the dictionary assembled
  by the first loop: the narratives of the result are, in the order of the metadata
  collection, those of the metadata entries whose id has an assembled narrative; an
  assembled narrative whose id has no metadata entry is absent from the result; and every
  narrative of the result carries the computed id, the computed (sorted) steps, and for
  every other field the value of its metadata entry (the first entry of that id). The
  result consists of these narratives alone when no metadata id is the name of a member of
  \<^verbatim>\<open>Object.prototype\<close>.
\<close>

theorem selectNarratives_order_and_merge:
  assumes "selectNarratives inset cmp events meta srcs = Inr out"
  shows "\<exists>narrs. assemble inset events srcs = Inr narrs
      \<and> map (\<lambda>ob. map_of ob ''id'') (narrative_objs out)
          = map (\<lambda>k. Some (Str k)) (filter (has_own narrs) (map meta_id meta))
      \<and> (\<forall>k. has_own narrs k \<and> k \<notin> meta_id ` set meta
            \<longrightarrow> Some (Str k) \<notin> (\<lambda>ob. map_of ob ''id'') ` set (narrative_objs out))
      \<and> (\<forall>ob\<in>set (narrative_objs out). \<exists>m n.
            find (\<lambda>m. meta_id m = narrative_id n) meta = Some m
            \<and> map_of narrs (narrative_id n) = Some n
            \<and> map_of ob ''id'' = Some (Str (narrative_id n))
            \<and> map_of ob ''steps'' = Some (Steps (js_sort cmp (steps n)))
            \<and> (\<forall>f. f \<noteq> ''id'' \<and> f \<noteq> ''steps'' \<longrightarrow> map_of ob f = map_of (meta_fields m) f))
      \<and> ((\<forall>m\<in>set meta. \<not> inherited (meta_id m)) \<longrightarrow> out = map Narrative (narrative_objs out))"
proof -
  from selectNarratives_unfold [OF assms] obtain narrs
    where a: "assemble inset events srcs = Inr narrs"
      and objs: "narrative_objs out =
         List.map_filter (\<lambda>k. map_option (finish cmp meta k) (map_of narrs k)) (map meta_id meta)"
    by blast
  have ids: "map (\<lambda>ob. map_of ob ''id'') (narrative_objs out)
          = map (\<lambda>k. Some (Str k)) (filter (has_own narrs) (map meta_id meta))"
    unfolding objs by (rule output_ids) (rule assemble_ids [OF a])
  have absent: "Some (Str k) \<notin> (\<lambda>ob. map_of ob ''id'') ` set (narrative_objs out)"
    if "has_own narrs k \<and> k \<notin> meta_id ` set meta" for k
  proof
    assume "Some (Str k) \<in> (\<lambda>ob. map_of ob ''id'') ` set (narrative_objs out)"
    then have "Some (Str k) \<in> set (map (\<lambda>ob. map_of ob ''id'') (narrative_objs out))" by simp
    with ids have "k \<in> meta_id ` set meta" by auto
    with that show False by simp
  qed
  have merged: "\<exists>m n. find (\<lambda>m. meta_id m = narrative_id n) meta = Some m
            \<and> map_of narrs (narrative_id n) = Some n
            \<and> map_of ob ''id'' = Some (Str (narrative_id n))
            \<and> map_of ob ''steps'' = Some (Steps (js_sort cmp (steps n)))
            \<and> (\<forall>f. f \<noteq> ''id'' \<and> f \<noteq> ''steps'' \<longrightarrow> map_of ob f = map_of (meta_fields m) f)"
    if "ob \<in> set (narrative_objs out)" for ob
  proof -
    from output_narrative [OF assms that] a obtain n m
      where n: "map_of narrs (narrative_id n) = Some n"
        and m: "find (\<lambda>m. meta_id m = narrative_id n) meta = Some m"
        and ob: "ob = finish cmp meta (narrative_id n) n"
      by auto
    from m ob have "map_of ob ''id'' = Some (Str (narrative_id n))"
      "map_of ob ''steps'' = Some (Steps (js_sort cmp (steps n)))"
      "\<forall>f. f \<noteq> ''id'' \<and> f \<noteq> ''steps'' \<longrightarrow> map_of ob f = map_of (meta_fields m) f"
      by (simp_all add: map_of_finish)
    with n m show ?thesis by blast
  qed
  have only: "out = map Narrative (narrative_objs out)"
    if ni: "\<forall>m\<in>set meta. \<not> inherited (meta_id m)"
  proof -
    have "\<forall>x\<in>set out. \<exists>ob. x = Narrative ob"
    proof
      fix x assume "x \<in> set out"
      from selectNarratives_entries [OF assms this] ni show "\<exists>ob. x = Narrative ob" by blast
    qed
    then show ?thesis by (rule only_narratives)
  qed
  from a ids absent merged only show ?thesis by blast
qed

theorem selectNarratives_order_and_merge_witness:
  "selectNarratives no_sources by_timestamp
        [narrated_event 0 ''2020-02-01'' [''n1''], narrated_event 1 ''2020-01-01'' [''n2'', ''n1'']]
        [\<lparr>meta_id = ''n1'', meta_fields = [(''title'', Str ''T''), (''steps'', Steps ([] :: event list))]\<rparr>,
         \<lparr>meta_id = ''n3'', meta_fields = []\<rparr>] ()
      = Inr [Narrative [(''title'', Str ''T''),
               (''steps'', Steps [narrated_event 1 ''2020-01-01'' [''n2'', ''n1''],
                                  narrated_event 0 ''2020-02-01'' [''n1'']]),
               (''id'', Str ''n1'')]]
   \<and> (\<exists>narrs. assemble no_sources
          [narrated_event 0 ''2020-02-01'' [''n1''], narrated_event 1 ''2020-01-01'' [''n2'', ''n1'']] ()
          = Inr narrs
        \<and> map (\<lambda>ob. map_of ob ''id'')
            (narrative_objs [Narrative [(''title'', Str ''T''),
               (''steps'', Steps [narrated_event 1 ''2020-01-01'' [''n2'', ''n1''],
                                  narrated_event 0 ''2020-02-01'' [''n1'']]),
               (''id'', Str ''n1'')]])
          = map (\<lambda>k. Some (Str k)) (filter (has_own narrs)
              (map meta_id [\<lparr>meta_id = ''n1'', meta_fields = [(''title'', Str ''T''), (''steps'', Steps ([] :: event list))]\<rparr>,
                            \<lparr>meta_id = ''n3'', meta_fields = []\<rparr>])))"
proof -
  have e: "selectNarratives no_sources by_timestamp
        [narrated_event 0 ''2020-02-01'' [''n1''], narrated_event 1 ''2020-01-01'' [''n2'', ''n1'']]
        [\<lparr>meta_id = ''n1'', meta_fields = [(''title'', Str ''T''), (''steps'', Steps ([] :: event list))]\<rparr>,
         \<lparr>meta_id = ''n3'', meta_fields = []\<rparr>] ()
      = Inr [Narrative [(''title'', Str ''T''),
               (''steps'', Steps [narrated_event 1 ''2020-01-01'' [''n2'', ''n1''],
                                  narrated_event 0 ''2020-02-01'' [''n1'']]),
               (''id'', Str ''n1'')]]"
    by (simp add: nar_eval)
  from selectNarratives_order_and_merge [OF e]
  have "\<exists>narrs. assemble no_sources
          [narrated_event 0 ''2020-02-01'' [''n1''], narrated_event 1 ''2020-01-01'' [''n2'', ''n1'']] ()
          = Inr narrs
        \<and> map (\<lambda>ob. map_of ob ''id'')
            (narrative_objs [Narrative [(''title'', Str ''T''),
               (''steps'', Steps [narrated_event 1 ''2020-01-01'' [''n2'', ''n1''],
                                  narrated_event 0 ''2020-02-01'' [''n1'']]),
               (''id'', Str ''n1'')]])
          = map (\<lambda>k. Some (Str k)) (filter (has_own narrs)
              (map meta_id [\<lparr>meta_id = ''n1'', meta_fields = [(''title'', Str ''T''), (''steps'', Steps ([] :: event list))]\<rparr>,
                            \<lparr>meta_id = ''n3'', meta_fields = []\<rparr>]))"
    by (elim exE conjE) (rule exI, rule conjI, assumption, assumption)
  with e show ?thesis by (rule conjI)
qed

text \<open>
  Claim C6. For a consistent comparator \<open>compareTimestamp\<close>, whatever the order of the
  events: in every narrative of the result of \<open>selectNarratives\<close>, each step is at or
  before the next in the order of the comparator.
\<close>

theorem narrative_steps_sorted:
  assumes "selectNarratives inset cmp events meta srcs = Inr out"
    and "consistent_comparator cmp"
    and "ob \<in> set (narrative_objs out)"
  shows "\<exists>ss. map_of ob ''steps'' = Some (Steps ss)
     \<and> (\<forall>i. Suc i < length ss \<longrightarrow> cmp (ss ! i) (ss ! Suc i) \<le> 0)"
proof -
  from output_narrative [OF assms(1,3)] obtain n
    where "ob = finish cmp meta (narrative_id n) n" by blast
  then have steps: "map_of ob ''steps'' = Some (Steps (js_sort cmp (steps n)))"
    by (simp add: map_of_finish)
  from sorted_js_sort [OF assms(2)]
  have "sorted_wrt (\<lambda>a b. cmp a b \<le> 0) (js_sort cmp (steps n))" .
  then have "\<forall>i. Suc i < length (js_sort cmp (steps n))
      \<longrightarrow> cmp (js_sort cmp (steps n) ! i) (js_sort cmp (steps n) ! Suc i) \<le> 0"
    by (simp add: sorted_wrt_iff_nth_less)
  with steps show ?thesis by blast
qed

theorem narrative_steps_sorted_witness:
  "consistent_comparator by_timestamp
   \<and> selectNarratives no_sources by_timestamp
        [narrated_event 0 ''2020-02-01'' [''n1''], narrated_event 1 ''2020-01-01'' [''n1'']]
        [\<lparr>meta_id = ''n1'', meta_fields = [(''title'', Str ''T'')]\<rparr>] ()
      = Inr [Narrative [(''title'', Str ''T''), (''id'', Str ''n1''),
               (''steps'', Steps [narrated_event 1 ''2020-01-01'' [''n1''],
                                  narrated_event 0 ''2020-02-01'' [''n1'']])]]
   \<and> (\<exists>ss. map_of [(''title'', Str ''T''), (''id'', Str ''n1''),
               (''steps'', Steps [narrated_event 1 ''2020-01-01'' [''n1''],
                                  narrated_event 0 ''2020-02-01'' [''n1'']])] ''steps'' = Some (Steps ss)
         \<and> (\<forall>i. Suc i < length ss \<longrightarrow> by_timestamp (ss ! i) (ss ! Suc i) \<le> 0))"
proof -
  let ?ob = "[(''title'', Str ''T''), (''id'', Str ''n1''),
               (''steps'', Steps [narrated_event 1 ''2020-01-01'' [''n1''],
                                  narrated_event 0 ''2020-02-01'' [''n1'']])]"
  have c: "consistent_comparator by_timestamp"
    by (auto simp: consistent_comparator_def by_timestamp_def)
  have e: "selectNarratives no_sources by_timestamp
        [narrated_event 0 ''2020-02-01'' [''n1''], narrated_event 1 ''2020-01-01'' [''n1'']]
        [\<lparr>meta_id = ''n1'', meta_fields = [(''title'', Str ''T'')]\<rparr>] ()
      = Inr [Narrative ?ob]"
    by (simp add: nar_eval)
  have m: "?ob \<in> set (narrative_objs [Narrative ?ob])"
    by (simp add: narrative_objs_def)
  from narrative_steps_sorted [OF e c m] c e show ?thesis by blast
qed

section \<open>Datetime groups and lanes\<close>

text \<open>
  Claim C2, as the code has it. The lane of a project is its position among the projects
  active at the timestamp, taken in the order of \<^verbatim>\<open>Object.keys(projects)\<close>, and the
  offset is that position times \<open>2 * eventDotR + 5\<close>. For a non-negative \<open>eventDotR\<close>,
  whenever \<open>selectDatetimes\<close> returns and for every group \<open>g\<close> of the result:

  \<^item> with the capability on, the projects were created in the order of discovery of the
    first tags of the events visited, the tag \<^verbatim>\<open>__proto__\<close> apart, which creates no key;
  \<^item> the interval of a project runs from \<^verbatim>\<open>dateMin\<close> to \<^verbatim>\<open>dateMax\<close> of the timestamps of
    the events that carry it as first tag, folded in the order of the visit;
  \<^item> a project is active at the timestamp of \<open>g\<close> exactly when it has an interval and the
    timestamp lies within it;
  \<^item> the events of \<open>g\<close> are the events visited that have its timestamp, in the order of
    the visit, and the project of each is its first tag (\<^verbatim>\<open>null\<close> without a tag, missing
    when the capability is off);
  \<^item> two events of \<open>g\<close> whose projects \<open>A\<close> and \<open>B\<close> are both active at the timestamp of
    \<open>g\<close>, with \<open>A\<close> before \<open>B\<close> in the key order, have the offsets
    \<open>i * (2 * eventDotR + 5)\<close> and \<open>j * (2 * eventDotR + 5)\<close> with \<open>0 \<le> i < j\<close> their
    positions among the active projects, so the offset of \<open>A\<close> is strictly the smaller.
    \<open>A\<close> is before \<open>B\<close> in the key order when both are array indices and \<open>A\<close> is the
    smaller number, when \<open>A\<close> is an array index and \<open>B\<close> is not, or when neither is an
    array index and \<open>A\<close> was discovered before \<open>B\<close>;
  \<^item> an event whose project is not active at the timestamp (or that has no project) has
    the offset \<open>- (2 * eventDotR + 5)\<close>; so has every event when the capability is off;
  \<^item> every event visited is in the group of its timestamp, the timestamp \<^verbatim>\<open>__proto__\<close>
    apart, which creates no group.
\<close>

theorem lane_offsets:
  assumes "group_all a dmin dmax events = Inr (projects, datetimes)"
    and "selectDatetimes a R dmin dmax dateOf events = Inr out"
    and "0 \<le> R"
    and "g \<in> set out"
  shows "(a \<longrightarrow> map fst projects
              = filter (\<lambda>k. k \<noteq> ''__proto__'') (discovery_order (forEach_elems events)))
       \<and> (\<forall>A\<in>fst ` set projects. \<exists>t ts.
            map timestamp (filter (\<lambda>e. first_tag e = Some A) (forEach_elems events)) = t # ts
            \<and> map_of projects A = Some \<lparr>start = foldl dmin t ts, end' = foldl dmax t ts\<rparr>)
       \<and> (\<forall>A. A \<in> set (activeProjects projects (dt_timestamp g)) \<longleftrightarrow>
            (\<exists>iv. map_of projects A = Some iv
                \<and> str_ge (dt_timestamp g) (start iv) \<and> str_le (dt_timestamp g) (end' iv)))
       \<and> map base (dt_events g)
            = filter (\<lambda>e. timestamp e = dt_timestamp g) (forEach_elems events)
       \<and> (\<forall>e\<in>set (dt_events g).
            project e = (if a then (case first_tag (base e) of Some t \<Rightarrow> Tag t | None \<Rightarrow> Null)
                         else Undefined))
       \<and> (\<forall>e1\<in>set (dt_events g). \<forall>e2\<in>set (dt_events g). \<forall>A B.
            project e1 = Tag A \<and> project e2 = Tag B
            \<and> A \<in> set (activeProjects projects (dt_timestamp g))
            \<and> B \<in> set (activeProjects projects (dt_timestamp g))
            \<and> ((array_index A \<noteq> None \<and> array_index B \<noteq> None \<and> index_value A < index_value B)
               \<or> (array_index A \<noteq> None \<and> array_index B = None)
               \<or> (array_index A = None \<and> array_index B = None
                   \<and> first_index (discovery_order (forEach_elems events)) A 0
                     < first_index (discovery_order (forEach_elems events)) B 0))
          \<longrightarrow> projectOffset e1 = Some (first_index (activeProjects projects (dt_timestamp g)) A 0 * (2 * R + 5))
            \<and> projectOffset e2 = Some (first_index (activeProjects projects (dt_timestamp g)) B 0 * (2 * R + 5))
            \<and> 0 \<le> first_index (activeProjects projects (dt_timestamp g)) A 0
            \<and> first_index (activeProjects projects (dt_timestamp g)) A 0
                < first_index (activeProjects projects (dt_timestamp g)) B 0
            \<and> first_index (activeProjects projects (dt_timestamp g)) A 0 * (2 * R + 5)
                < first_index (activeProjects projects (dt_timestamp g)) B 0 * (2 * R + 5))
       \<and> (\<forall>e\<in>set (dt_events g).
            (case project e of Tag t \<Rightarrow> t \<notin> set (activeProjects projects (dt_timestamp g)) | _ \<Rightarrow> True)
          \<longrightarrow> projectOffset e = Some (- (2 * R + 5)))
       \<and> (\<not> a \<longrightarrow> (\<forall>e\<in>set (dt_events g). projectOffset e = Some (- (2 * R + 5))))
       \<and> (\<forall>e\<in>set (forEach_elems events).
            timestamp e \<noteq> ''__proto__'' \<longrightarrow> timestamp e \<in> dt_timestamp ` set out)"
proof (intro conjI ballI allI impI)
  assume a
  with assms(1) have "fold_err (group_event True dmin dmax) ([], []) (forEach_elems events)
      = Inr (projects, datetimes)" by (simp add: group_all_def)
  from group_fold_projects [OF this]
  show "map fst projects = filter (\<lambda>k. k \<noteq> ''__proto__'') (discovery_order (forEach_elems events))"
    by simp
next
  fix A
  assume A: "A \<in> fst ` set projects"
  then have "projects \<noteq> []" by auto
  with group_all_wf [OF assms(1)] have a by auto
  with assms(1) have "fold_err (group_event True dmin dmax) ([], []) (forEach_elems events)
      = Inr (projects, datetimes)" by (simp add: group_all_def)
  from group_fold_projects [OF this]
  have "\<forall>A. A \<in> fst ` set projects \<longrightarrow> (\<exists>t ts.
          map timestamp (filter (\<lambda>e. first_tag e = Some A) (forEach_elems events)) = t # ts
          \<and> map_of projects A = Some \<lparr>start = foldl dmin t ts, end' = foldl dmax t ts\<rparr>)"
    by simp
  from this [rule_format, OF A]
  show "\<exists>t ts. map timestamp (filter (\<lambda>e. first_tag e = Some A) (forEach_elems events)) = t # ts
          \<and> map_of projects A = Some \<lparr>start = foldl dmin t ts, end' = foldl dmax t ts\<rparr>" .
next
  fix A
  show "A \<in> set (activeProjects projects (dt_timestamp g)) \<longleftrightarrow>
            (\<exists>iv. map_of projects A = Some iv
                \<and> str_ge (dt_timestamp g) (start iv) \<and> str_le (dt_timestamp g) (end' iv))"
    by (rule set_activeProjects)
next
  from out_groups [OF assms(1,2,4)]
  show "map base (dt_events g) = filter (\<lambda>e. timestamp e = dt_timestamp g) (forEach_elems events)"
    by simp
next
  fix e
  assume "e \<in> set (dt_events g)"
  with out_groups [OF assms(1,2,4)]
  show "project e = (if a then (case first_tag (base e) of Some t \<Rightarrow> Tag t | None \<Rightarrow> Null)
                         else Undefined)"
    by simp
next
  let ?act = "activeProjects projects (dt_timestamp g)"
  let ?D = "discovery_order (forEach_elems events)"
  fix e1 e2 A B
  assume e: "e1 \<in> set (dt_events g)" "e2 \<in> set (dt_events g)"
    and h: "project e1 = Tag A \<and> project e2 = Tag B \<and> A \<in> set ?act \<and> B \<in> set ?act
            \<and> ((array_index A \<noteq> None \<and> array_index B \<noteq> None \<and> index_value A < index_value B)
               \<or> (array_index A \<noteq> None \<and> array_index B = None)
               \<or> (array_index A = None \<and> array_index B = None
                   \<and> first_index ?D A 0 < first_index ?D B 0))"
  from h have AB: "A \<in> set ?act" "B \<in> set ?act"
    and ord: "(array_index A \<noteq> None \<and> array_index B \<noteq> None \<and> index_value A < index_value B)
               \<or> (array_index A \<noteq> None \<and> array_index B = None)
               \<or> (array_index A = None \<and> array_index B = None
                   \<and> first_index ?D A 0 < first_index ?D B 0)"
    and pj: "project e1 = Tag A" "project e2 = Tag B" by simp_all
  from keys_precede [OF assms(1) AB ord]
  have lt: "first_index ?act A 0 < first_index ?act B 0" .
  from AB(1) first_index_ge [of A ?act 0] have ge: "0 \<le> first_index ?act A 0" by simp
  from offsets_formula [OF assms(1,2,4) e(1)] pj
  show "projectOffset e1 = Some (first_index ?act A 0 * (2 * R + 5))" by (simp add: indexOf_def)
  from offsets_formula [OF assms(1,2,4) e(2)] pj
  show "projectOffset e2 = Some (first_index ?act B 0 * (2 * R + 5))" by (simp add: indexOf_def)
  from ge show "0 \<le> first_index ?act A 0" .
  from lt show "first_index ?act A 0 < first_index ?act B 0" .
  from lt assms(3) show "first_index ?act A 0 * (2 * R + 5) < first_index ?act B 0 * (2 * R + 5)"
    by (simp add: mult_strict_right_mono)
next
  let ?act = "activeProjects projects (dt_timestamp g)"
  fix e
  assume e: "e \<in> set (dt_events g)"
    and h: "case project e of Tag t \<Rightarrow> t \<notin> set ?act | _ \<Rightarrow> True"
  from h have "indexOf ?act (project e) = -1"
    by (auto simp: indexOf_def first_index_notin split: project.splits)
  with offsets_formula [OF assms(1,2,4) e] show "projectOffset e = Some (- (2 * R + 5))" by simp
next
  fix e
  assume off: "\<not> a" and e: "e \<in> set (dt_events g)"
  from group_all_wf [OF assms(1)] off have "projects = []" by simp
  then have "indexOf (activeProjects projects (dt_timestamp g)) (project e) = -1"
    by (simp add: indexOf_def activeProjects_def object_keys_def own_entries_def split: project.splits)
  with offsets_formula [OF assms(1,2,4) e] show "projectOffset e = Some (- (2 * R + 5))" by simp
next
  fix e
  assume "e \<in> set (forEach_elems events)" and "timestamp e \<noteq> ''__proto__''"
  from out_covers [OF assms(1,2) this] show "timestamp e \<in> dt_timestamp ` set out" .
qed


text \<open>
  Three events of one timestamp, with the first tags \<open>x\<close>, \<open>y\<close> and none: \<open>x\<close> is
  discovered before \<open>y\<close> and gets the smaller offset.
\<close>

theorem lane_offsets_witness:
  "group_all True str_min str_max
        [(0, sample_event 0 ''2020-01-01'' ''c1'' [''x'']), (1, sample_event 1 ''2020-01-01'' ''c1'' [''y'']),
         (2, sample_event 2 ''2020-01-01'' ''c1'' [])]
     = Inr ([(''x'', \<lparr>start = ''2020-01-01'', end' = ''2020-01-01''\<rparr>),
             (''y'', \<lparr>start = ''2020-01-01'', end' = ''2020-01-01''\<rparr>)],
            [(''2020-01-01'', \<lparr>dt_timestamp = ''2020-01-01'', dt_date = [], dt_time = [],
               dt_events =
                 [\<lparr>base = sample_event 0 ''2020-01-01'' ''c1'' [''x''], project = Tag ''x'', projectOffset = None\<rparr>,
                  \<lparr>base = sample_event 1 ''2020-01-01'' ''c1'' [''y''], project = Tag ''y'', projectOffset = None\<rparr>,
                  \<lparr>base = sample_event 2 ''2020-01-01'' ''c1'' [], project = Null, projectOffset = None\<rparr>]\<rparr>)])
   \<and> selectDatetimes True 8 str_min str_max iso_number
        [(0, sample_event 0 ''2020-01-01'' ''c1'' [''x'']), (1, sample_event 1 ''2020-01-01'' ''c1'' [''y'']),
         (2, sample_event 2 ''2020-01-01'' ''c1'' [])]
     = Inr [\<lparr>dt_timestamp = ''2020-01-01'', dt_date = [], dt_time = [],
             dt_events =
               [\<lparr>base = sample_event 0 ''2020-01-01'' ''c1'' [''x''], project = Tag ''x'', projectOffset = Some 0\<rparr>,
                \<lparr>base = sample_event 1 ''2020-01-01'' ''c1'' [''y''], project = Tag ''y'', projectOffset = Some 21\<rparr>,
                \<lparr>base = sample_event 2 ''2020-01-01'' ''c1'' [], project = Null, projectOffset = Some (-21)\<rparr>]\<rparr>]
   \<and> (0::int) \<le> 8
   \<and> discovery_order (forEach_elems
        [(0, sample_event 0 ''2020-01-01'' ''c1'' [''x'']), (1, sample_event 1 ''2020-01-01'' ''c1'' [''y'']),
         (2, sample_event 2 ''2020-01-01'' ''c1'' [])]) = [''x'', ''y'']
   \<and> first_index (activeProjects
          [(''x'', \<lparr>start = ''2020-01-01'', end' = ''2020-01-01''\<rparr>),
           (''y'', \<lparr>start = ''2020-01-01'', end' = ''2020-01-01''\<rparr>)] ''2020-01-01'') ''x'' 0 * (2 * 8 + 5)
       < first_index (activeProjects
          [(''x'', \<lparr>start = ''2020-01-01'', end' = ''2020-01-01''\<rparr>),
           (''y'', \<lparr>start = ''2020-01-01'', end' = ''2020-01-01''\<rparr>)] ''2020-01-01'') ''y'' 0 * (2 * 8 + 5)"
proof -
  let ?events = "[(0, sample_event 0 ''2020-01-01'' ''c1'' [''x'']), (1, sample_event 1 ''2020-01-01'' ''c1'' [''y'']),
         (2, sample_event 2 ''2020-01-01'' ''c1'' [])]"
  let ?projects = "[(''x'', \<lparr>start = ''2020-01-01'', end' = ''2020-01-01''\<rparr>),
             (''y'', \<lparr>start = ''2020-01-01'', end' = ''2020-01-01''\<rparr>)]"
  let ?datetimes = "[(''2020-01-01'', \<lparr>dt_timestamp = ''2020-01-01'', dt_date = [], dt_time = [],
               dt_events =
                 [\<lparr>base = sample_event 0 ''2020-01-01'' ''c1'' [''x''], project = Tag ''x'', projectOffset = None\<rparr>,
                  \<lparr>base = sample_event 1 ''2020-01-01'' ''c1'' [''y''], project = Tag ''y'', projectOffset = None\<rparr>,
                  \<lparr>base = sample_event 2 ''2020-01-01'' ''c1'' [], project = Null, projectOffset = None\<rparr>]\<rparr>)]"
  let ?e1 = "\<lparr>base = sample_event 0 ''2020-01-01'' ''c1'' [''x''], project = Tag ''x'', projectOffset = Some 0\<rparr>"
  let ?e2 = "\<lparr>base = sample_event 1 ''2020-01-01'' ''c1'' [''y''], project = Tag ''y'', projectOffset = Some 21\<rparr>"
  let ?g = "\<lparr>dt_timestamp = ''2020-01-01'', dt_date = [], dt_time = [],
             dt_events = [?e1, ?e2,
                \<lparr>base = sample_event 2 ''2020-01-01'' ''c1'' [], project = Null, projectOffset = Some (-21)\<rparr>]\<rparr>"
  let ?act = "activeProjects ?projects (dt_timestamp ?g)"
  let ?D = "discovery_order (forEach_elems ?events)"
  have ga: "group_all True str_min str_max ?events = Inr (?projects, ?datetimes)"
    by (simp add: dt_eval)
  have sd: "selectDatetimes True 8 str_min str_max iso_number ?events = Inr [?g]"
    by (simp add: dt_eval)
  have r: "(0::int) \<le> 8" by simp
  have gin: "?g \<in> set [?g]" by simp
  have act: "?act = [''x'', ''y'']"
    by (simp add: dt_eval)
  have disc: "?D = [''x'', ''y'']"
    by (simp add: discovery_order_def first_tag_def map_filter_def forEach_elems_def sample_event_def)
  have plain: "array_index ''x'' = None" "array_index ''y'' = None"
    by (simp_all add: array_index_def digit_def)
  have e1: "?e1 \<in> set (dt_events ?g)" and e2: "?e2 \<in> set (dt_events ?g)" by simp_all
  note lanes = lane_offsets [OF ga sd r gin, THEN conjunct2, THEN conjunct2, THEN conjunct2,
      THEN conjunct2, THEN conjunct2, THEN conjunct1]
  from lanes e1 have "\<forall>e2\<in>set (dt_events ?g). \<forall>A B.
            project ?e1 = Tag A \<and> project e2 = Tag B \<and> A \<in> set ?act \<and> B \<in> set ?act
            \<and> ((array_index A \<noteq> None \<and> array_index B \<noteq> None \<and> index_value A < index_value B)
               \<or> (array_index A \<noteq> None \<and> array_index B = None)
               \<or> (array_index A = None \<and> array_index B = None
                   \<and> first_index ?D A 0 < first_index ?D B 0))
          \<longrightarrow> projectOffset ?e1 = Some (first_index ?act A 0 * (2 * 8 + 5))
            \<and> projectOffset e2 = Some (first_index ?act B 0 * (2 * 8 + 5))
            \<and> 0 \<le> first_index ?act A 0
            \<and> first_index ?act A 0 < first_index ?act B 0
            \<and> first_index ?act A 0 * (2 * 8 + 5) < first_index ?act B 0 * (2 * 8 + 5)"
    by (rule bspec)
  from this e2 have "\<forall>A B.
            project ?e1 = Tag A \<and> project ?e2 = Tag B \<and> A \<in> set ?act \<and> B \<in> set ?act
            \<and> ((array_index A \<noteq> None \<and> array_index B \<noteq> None \<and> index_value A < index_value B)
               \<or> (array_index A \<noteq> None \<and> array_index B = None)
               \<or> (array_index A = None \<and> array_index B = None
                   \<and> first_index ?D A 0 < first_index ?D B 0))
          \<longrightarrow> projectOffset ?e1 = Some (first_index ?act A 0 * (2 * 8 + 5))
            \<and> projectOffset ?e2 = Some (first_index ?act B 0 * (2 * 8 + 5))
            \<and> 0 \<le> first_index ?act A 0
            \<and> first_index ?act A 0 < first_index ?act B 0
            \<and> first_index ?act A 0 * (2 * 8 + 5) < first_index ?act B 0 * (2 * 8 + 5)"
    by (rule bspec)
  from this [rule_format, of "''x''" "''y''"] act disc plain
  have "first_index ?act ''x'' 0 * (2 * 8 + 5) < first_index ?act ''y'' 0 * (2 * 8 + 5)"
    by simp
  with ga sd disc show ?thesis by simp
qed

text \<open>
  With the order of discovery alone the statement fails. The event of id 0 is visited
  first, so its project \<open>2\<close> is discovered before the project \<open>1\<close> of the event of id 1;
  both projects are active at the shared timestamp; the keys \<open>1\<close> and \<open>2\<close> are array
  indices, so \<^verbatim>\<open>Object.keys\<close> lists \<open>1\<close> first, and the event of project \<open>2\<close> gets the
  offset 21, the event of project \<open>1\<close> the offset 0. It also fails for a negative
  \<open>eventDotR\<close>: with \<open>eventDotR = -3\<close> the lanes are \<open>-1\<close> apart, and the project \<open>x\<close>,
  discovered before \<open>y\<close>, gets the offset 0 and \<open>y\<close> the offset \<open>-1\<close>.
\<close>

theorem lane_order_counterexample:
  "discovery_order (forEach_elems
        [(0, sample_event 0 ''2020-01-01'' ''c1'' [''2'']), (1, sample_event 1 ''2020-01-01'' ''c1'' [''1''])])
     = [''2'', ''1'']
   \<and> activeProjects
        [(''2'', \<lparr>start = ''2020-01-01'', end' = ''2020-01-01''\<rparr>),
         (''1'', \<lparr>start = ''2020-01-01'', end' = ''2020-01-01''\<rparr>)] ''2020-01-01'' = [''1'', ''2'']
   \<and> selectDatetimes True 8 str_min str_max iso_number
        [(0, sample_event 0 ''2020-01-01'' ''c1'' [''2'']), (1, sample_event 1 ''2020-01-01'' ''c1'' [''1''])]
     = Inr [\<lparr>dt_timestamp = ''2020-01-01'', dt_date = [], dt_time = [],
             dt_events =
               [\<lparr>base = sample_event 0 ''2020-01-01'' ''c1'' [''2''], project = Tag ''2'', projectOffset = Some 21\<rparr>,
                \<lparr>base = sample_event 1 ''2020-01-01'' ''c1'' [''1''], project = Tag ''1'', projectOffset = Some 0\<rparr>]\<rparr>]
   \<and> discovery_order (forEach_elems
        [(0, sample_event 0 ''2020-01-01'' ''c1'' [''x'']), (1, sample_event 1 ''2020-01-01'' ''c1'' [''y''])])
     = [''x'', ''y'']
   \<and> selectDatetimes True (- 3) str_min str_max iso_number
        [(0, sample_event 0 ''2020-01-01'' ''c1'' [''x'']), (1, sample_event 1 ''2020-01-01'' ''c1'' [''y''])]
     = Inr [\<lparr>dt_timestamp = ''2020-01-01'', dt_date = [], dt_time = [],
             dt_events =
               [\<lparr>base = sample_event 0 ''2020-01-01'' ''c1'' [''x''], project = Tag ''x'', projectOffset = Some 0\<rparr>,
                \<lparr>base = sample_event 1 ''2020-01-01'' ''c1'' [''y''], project = Tag ''y'', projectOffset = Some (- 1)\<rparr>]\<rparr>]"
  by (simp add: dt_eval discovery_order_def first_tag_def map_filter_def)

text \<open>
  An event whose first tag is \<^verbatim>\<open>__proto__\<close>: the assignment creates no key, the project
  is never active, and the event gets the offset of an event without a project.
\<close>

lemma proto_project_offset:
  "first_tag (sample_event 0 ''2020-01-01'' ''c1'' [''__proto__'']) = Some ''__proto__''
   \<and> group_all True str_min str_max [(0, sample_event 0 ''2020-01-01'' ''c1'' [''__proto__''])]
     = Inr ([], [(''2020-01-01'', \<lparr>dt_timestamp = ''2020-01-01'', dt_date = [], dt_time = [],
               dt_events = [\<lparr>base = sample_event 0 ''2020-01-01'' ''c1'' [''__proto__''],
                              project = Tag ''__proto__'', projectOffset = None\<rparr>]\<rparr>)])
   \<and> selectDatetimes True 8 str_min str_max iso_number
        [(0, sample_event 0 ''2020-01-01'' ''c1'' [''__proto__''])]
     = Inr [\<lparr>dt_timestamp = ''2020-01-01'', dt_date = [], dt_time = [],
             dt_events =
               [\<lparr>base = sample_event 0 ''2020-01-01'' ''c1'' [''__proto__''],
                  project = Tag ''__proto__'', projectOffset = Some (- 21)\<rparr>]\<rparr>]"
  by (simp add: dt_eval first_tag_def)

text \<open>
  Claim C4, as the code has it. The sorted list of timestamps only fixes the order in which
  the groups get their offsets; the result is \<^verbatim>\<open>Object.values(datetimes)\<close>, the groups in
  the order in which the object lists them. When the filtered events are visited in
  ascending order of timestamp (the numeric order \<open>dateOf\<close> of their dates) and no
  timestamp is an array index, the groups returned by \<open>selectDatetimes\<close> are in ascending
  order of timestamp.
\<close>

theorem datetimes_ascending_for_ascending_input:
  assumes "selectDatetimes a R dmin dmax dateOf events = Inr out"
    and "sorted (map (\<lambda>e. dateOf (timestamp e)) (forEach_elems events))"
    and "\<forall>e\<in>set (forEach_elems events). array_index (timestamp e) = None"
  shows "sorted (map (\<lambda>g. dateOf (dt_timestamp g)) out)"
proof -
  from assms(1) obtain projects datetimes
    where ga: "group_all a dmin dmax events = Inr (projects, datetimes)"
    by (auto simp: selectDatetimes_def split: sum.splits)
  from group_fold_sorted [OF ga [unfolded group_all_def], of dateOf] assms(2)
  have s: "sorted (map dateOf (map fst datetimes))"
    and sub: "fst ` set datetimes \<subseteq> timestamp ` set (forEach_elems events)" by simp_all
  from sub assms(3) have plain: "\<forall>k \<in> fst ` set datetimes. array_index k = None" by auto
  let ?d = "map (\<lambda>p. (fst p, with_offsets R projects (fst p) (snd p))) datetimes"
  from plain have "\<forall>k \<in> fst ` set ?d. array_index k = None" by (simp add: image_image)
  then have "own_entries ?d = ?d" by (rule own_entries_plain)
  with selectDatetimes_char [OF ga, of R dateOf] assms(1)
  have out: "out = map (\<lambda>p. with_offsets R projects (fst p) (snd p)) datetimes"
    by (simp add: object_values_def comp_def)
  from group_all_wf [OF ga] have "\<forall>p\<in>set datetimes. dt_timestamp (snd p) = fst p" by simp
  then have "map (\<lambda>g. dateOf (dt_timestamp g)) out = map dateOf (map fst datetimes)"
    unfolding out by (simp add: with_offsets_def comp_def)
  with s show ?thesis by simp
qed

theorem datetimes_ascending_for_ascending_input_witness:
  "selectDatetimes False 8 str_min str_max iso_number
        [(1, sample_event 1 ''2020-02-01'' ''c1'' [''x'']), (0, sample_event 0 ''2020-01-01'' ''c1'' [''x''])]
     = Inr [\<lparr>dt_timestamp = ''2020-01-01'', dt_date = [], dt_time = [],
             dt_events =
               [\<lparr>base = sample_event 0 ''2020-01-01'' ''c1'' [''x''], project = Undefined, projectOffset = Some (-21)\<rparr>]\<rparr>,
            \<lparr>dt_timestamp = ''2020-02-01'', dt_date = [], dt_time = [],
             dt_events =
               [\<lparr>base = sample_event 1 ''2020-02-01'' ''c1'' [''x''], project = Undefined, projectOffset = Some (-21)\<rparr>]\<rparr>]
   \<and> sorted (map (\<lambda>g. iso_number (dt_timestamp g))
        [\<lparr>dt_timestamp = ''2020-01-01'', dt_date = [], dt_time = [],
             dt_events =
               [\<lparr>base = sample_event 0 ''2020-01-01'' ''c1'' [''x''], project = Undefined, projectOffset = Some (-21)\<rparr>]\<rparr>,
            \<lparr>dt_timestamp = ''2020-02-01'', dt_date = [], dt_time = [],
             dt_events =
               [\<lparr>base = sample_event 1 ''2020-02-01'' ''c1'' [''x''], project = Undefined, projectOffset = Some (-21)\<rparr>]\<rparr>])"
proof -
  let ?events = "[(1, sample_event 1 ''2020-02-01'' ''c1'' [''x'']), (0, sample_event 0 ''2020-01-01'' ''c1'' [''x''])]"
  let ?out = "[\<lparr>dt_timestamp = ''2020-01-01'', dt_date = [], dt_time = [],
             dt_events =
               [\<lparr>base = sample_event 0 ''2020-01-01'' ''c1'' [''x''], project = Undefined, projectOffset = Some (-21)\<rparr>]\<rparr>,
            \<lparr>dt_timestamp = ''2020-02-01'', dt_date = [], dt_time = [],
             dt_events =
               [\<lparr>base = sample_event 1 ''2020-02-01'' ''c1'' [''x''], project = Undefined, projectOffset = Some (-21)\<rparr>]\<rparr>]"
  have e: "selectDatetimes False 8 str_min str_max iso_number ?events = Inr ?out"
    by (simp add: dt_eval)
  have s: "sorted (map (\<lambda>e. iso_number (timestamp e)) (forEach_elems ?events))"
    by (simp add: forEach_elems_def sample_event_def iso_number_def decimal_def digit_def)
  have p: "\<forall>e\<in>set (forEach_elems ?events). array_index (timestamp e) = None"
    by (simp add: forEach_elems_def sample_event_def array_index_def digit_def)
  from datetimes_ascending_for_ascending_input [OF e s p] e show ?thesis by blast
qed

text \<open>
  Without the condition on the input the groups are not ascending: the event of id 0 has
  the later date, its group is created first and is returned first.
\<close>

theorem unsorted_output_counterexample:
  "selectDatetimes False 8 str_min str_max iso_number
        [(0, sample_event 0 ''2020-02-01'' ''c1'' [''x'']), (1, sample_event 1 ''2020-01-01'' ''c1'' [''x''])]
     = Inr [\<lparr>dt_timestamp = ''2020-02-01'', dt_date = [], dt_time = [],
             dt_events =
               [\<lparr>base = sample_event 0 ''2020-02-01'' ''c1'' [''x''], project = Undefined, projectOffset = Some (-21)\<rparr>]\<rparr>,
            \<lparr>dt_timestamp = ''2020-01-01'', dt_date = [], dt_time = [],
             dt_events =
               [\<lparr>base = sample_event 1 ''2020-01-01'' ''c1'' [''x''], project = Undefined, projectOffset = Some (-21)\<rparr>]\<rparr>]
   \<and> iso_number ''2020-01-01'' < iso_number ''2020-02-01''"
  by (simp add: dt_eval)

end
